theory Spec2Isabelle
  imports Complex_Main "HOL-Library.Signed_Division" "HOL-Library.Sublist"
begin

unbundle bit_operations_syntax

section \<open>Page specifications (psspec.c, psnup.c)\<close>

text \<open>
  The header psspec.h is not among the sources, so the values of the flag macros
  \<open>ADD_NEXT\<close>, \<open>ROTATE\<close>, \<open>HFLIP\<close>, \<open>VFLIP\<close>, \<open>SCALE\<close>, \<open>OFFSET\<close>, \<open>GSAVE\<close> and
  \<open>REVERSED\<close> are a parameter of the model: a record of eight integers. The code only
  combines them with \<open>|=\<close> and tests them with \<open>flags & X\<close>, which is what the model
  does on \<open>int\<close> (bitwise, two's complement).

  A C \<open>double\<close> is modelled by a real number: rounding, infinities and NaN are outside the
  model. C \<open>int\<close> and \<open>long\<close> are mathematical integers (signed overflow is undefined
  in C); \<open>/\<close> and \<open>%\<close> on them truncate towards zero (\<open>sdiv\<close>, \<open>smod\<close>).
\<close>

record flagdefs =
  ADD_NEXT :: int
  ROTATE :: int
  HFLIP :: int
  VFLIP :: int
  SCALE :: int
  OFFSET :: int
  GSAVE :: int
  REVERSED :: int

text \<open>\<open>PageSpec\<close>: the \<open>next\<close> pointer chains the specs of one sheet; the chain is a list.\<close>

record PageSpec =
  ps_pageno :: int
  ps_flags :: int
  ps_rotate :: int
  ps_xoff :: real
  ps_yoff :: real
  ps_scale :: real

definition newspec :: PageSpec where
  "newspec = \<lparr>ps_pageno = 0, ps_flags = 0, ps_rotate = 0, ps_xoff = 0, ps_yoff = 0, ps_scale = 1\<rparr>"

text \<open>
  The variables of \<open>main\<close> in psnup.c that the specification loop reads. The C \<open>int\<close>s
  \<open>rotate\<close>, \<open>column\<close>, \<open>leftright\<close> and \<open>topbottom\<close> are only ever 0 or 1 and only
  tested for truth: they are booleans here.
\<close>

record layout =
  l_nup :: int
  l_horiz :: int
  l_vert :: int
  l_rotate :: bool
  l_column :: bool
  l_leftright :: bool
  l_topbottom :: bool
  l_margin :: real
  l_ppwid :: real
  l_pphgt :: real
  l_hshift :: real
  l_vshift :: real
  l_uscale :: real
  l_scale :: real

text \<open>psnup.c, lines 231-237: the cell \<open>(across, up)\<close> of page \<open>page\<close>.\<close>

definition across_of :: "layout \<Rightarrow> int \<Rightarrow> int" where
  "across_of L page =
     (if l_column L
      then (if l_leftright L then page sdiv l_vert L else l_horiz L - 1 - page sdiv l_vert L)
      else (if l_leftright L then page smod l_horiz L else l_horiz L - 1 - page smod l_horiz L))"

definition up_of :: "layout \<Rightarrow> int \<Rightarrow> int" where
  "up_of L page =
     (if l_column L
      then (if l_topbottom L then l_vert L - 1 - page smod l_vert L else page smod l_vert L)
      else (if l_topbottom L then l_vert L - 1 - page sdiv l_horiz L else page sdiv l_horiz L))"

definition cell :: "layout \<Rightarrow> int \<Rightarrow> int \<times> int" where
  "cell L page = (across_of L page, up_of L page)"

text \<open>psnup.c, lines 238-248: the fields of \<open>tail\<close> set before \<open>++page\<close>.\<close>

definition fillspec :: "flagdefs \<Rightarrow> layout \<Rightarrow> int \<Rightarrow> PageSpec \<Rightarrow> PageSpec" where
  "fillspec F L page t =
     (let across = across_of L page; up = up_of L page;
          t1 = (if l_rotate L
                then t\<lparr>ps_xoff := l_margin L + of_int (across + 1) * l_ppwid L / of_int (l_horiz L)
                                    - l_hshift L,
                       ps_rotate := 90,
                       ps_flags := ps_flags t OR ROTATE F\<rparr>
                else t\<lparr>ps_xoff := l_margin L + of_int across * l_ppwid L / of_int (l_horiz L)
                                    + l_hshift L\<rparr>);
          t2 = t1\<lparr>ps_pageno := page\<rparr>;
          t3 = t2\<lparr>ps_scale := (if l_uscale L > 0 then l_uscale L else l_scale L)\<rparr>;
          t4 = t3\<lparr>ps_flags := ps_flags t3 OR SCALE F\<rparr>;
          t5 = t4\<lparr>ps_yoff := l_margin L + of_int up * l_pphgt L / of_int (l_vert L) + l_vshift L\<rparr>
      in t5\<lparr>ps_flags := ps_flags t5 OR OFFSET F\<rparr>)"

text \<open>
  psnup.c, lines 227-254: the loop over \<open>page\<close>. \<open>specloop F L page\<close> is the chain from
  the node \<open>tail\<close> on, when the loop test is reached with the counter at \<open>page\<close> and
  \<open>tail\<close> fresh from \<open>newspec\<close>.
\<close>

function specloop :: "flagdefs \<Rightarrow> layout \<Rightarrow> int \<Rightarrow> PageSpec list" where
  "specloop F L page =
     (if page < l_nup L
      then (let t = fillspec F L page newspec
            in if page + 1 < l_nup L
               then t\<lparr>ps_flags := ps_flags t OR ADD_NEXT F\<rparr> # specloop F L (page + 1)
               else [t])
      else [newspec])"
  by pat_completeness auto
termination
  by (relation "measure (\<lambda>(F, L, page). nat (l_nup L - page))") auto

declare specloop.simps [simp del]

definition mkspecs :: "flagdefs \<Rightarrow> layout \<Rightarrow> PageSpec list" where
  "mkspecs F L = specloop F L 0"

text \<open>Two abbreviations for the proofs: a coordinate counted from the far end, and the
  statement \<open>tail->flags |= ADD_NEXT\<close>.\<close>

definition refl_if :: "bool \<Rightarrow> int \<Rightarrow> int \<Rightarrow> int" where
  "refl_if b n x = (if b then n - 1 - x else x)"

definition addnext :: "flagdefs \<Rightarrow> PageSpec \<Rightarrow> PageSpec" where
  "addnext F t = t\<lparr>ps_flags := ps_flags t OR ADD_NEXT F\<rparr>"


section \<open>Files and program state (psutil.c)\<close>

text \<open>
  The input file is its content, a list of bytes, and a position (\<open>ftello\<close>,
  \<open>fseeko\<close>). File offsets (\<open>off_t\<close>) are natural numbers: every offset the program
  handles comes from \<open>ftello\<close>, and the one signed difference, \<open>upto - here\<close> in
  \<open>fcopy\<close>, is only compared with 0, which truncating subtraction keeps.

  The output file is the list of bytes written so far. \<open>outroom\<close> is the room left on
  the output device: \<open>None\<close> for a device that takes every write, \<open>Some r\<close> when only
  \<open>r\<close> more bytes fit, so that a write can fall short as \<open>fwrite\<close> and \<open>fputs\<close>
  report it.

  The other fields are the global variables of psutil.c and psspec.c. The array \<open>pageptr\<close>
  is the list of the entries written so far (its allocation and \<open>maxpages\<close> are not
  modelled).
\<close>

datatype error =
    ArgError              \<comment> \<open>\<open>argerror()\<close>\<close>
  | UsageError            \<comment> \<open>\<open>usage()\<close>\<close>
  | WidthNotSet           \<comment> \<open>\<open>die("width not set")\<close>\<close>
  | HeightNotSet          \<comment> \<open>\<open>die("height not set")\<close>\<close>
  | MarginsTooLarge       \<comment> \<open>\<open>die("paper margins are too large")\<close>\<close>
  | NoLayout int          \<comment> \<open>\<open>die("can't find acceptable layout for %d-up")\<close>\<close>
  | BadPageLabel int      \<comment> \<open>\<open>"Bad page label while seeking page %d"\<close>\<close>
  | SeekError int         \<comment> \<open>\<open>"I/O error seeking page %d"\<close>\<close>
  | PageSetupReadError int  \<comment> \<open>\<open>"I/O error reading page setup %d"\<close>\<close>
  | PageSetupWriteError int \<comment> \<open>\<open>"I/O error writing page setup %d"\<close>\<close>
  | PageWriteError int    \<comment> \<open>\<open>"I/O error writing page %d"\<close>\<close>
  | HeaderError           \<comment> \<open>\<open>"I/O error in header"\<close>\<close>
  | PrologueError         \<comment> \<open>\<open>"I/O error in prologue"\<close>\<close>
  | OutOfBounds           \<comment> \<open>a read or write outside an array: undefined in C\<close>
  | BadModulo             \<comment> \<open>\<open>pstops\<close> with \<open>modulo \<le> 0\<close>: division by zero or no return\<close>

record pstate =
  infile :: "char list"
  inpos :: nat
  outfile :: "char list"
  outroom :: "nat option"
  bytes :: int
  pagescmt :: nat
  headerpos :: nat
  endsetup :: nat
  beginprocset :: nat
  endprocset :: nat
  outputpage :: int
  pageptr :: "nat list"
  pages :: int
  pagelabel :: string
  pageno :: int
  width :: real
  height :: real

text \<open>
  \<open>BUFSIZ\<close> of stdio.h, with the value of the GNU C library. The proofs use no more of
  it than \<open>2 \<le> BUFSIZ\<close>.
\<close>

definition BUFSIZ :: nat where
  "BUFSIZ = 8192"

subsection \<open>The C library calls the code makes\<close>

text \<open>\<open>getline n cs\<close>: the bytes \<open>fgets\<close> takes from \<open>cs\<close> when its buffer has room
  for \<open>n\<close> of them: up to and including the first newline.\<close>

fun getline :: "nat \<Rightarrow> char list \<Rightarrow> char list" where
  "getline n [] = []"
| "getline n (c # cs) =
     (if n = 0 then [] else if c = CHR 0x0A then [c] else c # getline (n - 1) cs)"

text \<open>\<open>fgets(buffer, BUFSIZ, infile)\<close>: \<open>None\<close> is the NULL result at end of file.\<close>

definition fgets :: "pstate \<Rightarrow> char list option \<times> pstate" where
  "fgets s =
     (let l = getline (BUFSIZ - 1) (drop (inpos s) (infile s))
      in if l = [] then (None, s) else (Some l, s\<lparr>inpos := inpos s + length l\<rparr>))"

text \<open>The C string a buffer holds ends before its first NUL byte.\<close>

definition cstr :: "char list \<Rightarrow> string" where
  "cstr b = takeWhile (\<lambda>c. c \<noteq> CHR 0x00) b"

text \<open>\<open>fread(buffer, 1, n, infile)\<close>: the bytes read, fewer than \<open>n\<close> at end of file.\<close>

definition fread :: "nat \<Rightarrow> pstate \<Rightarrow> char list \<times> pstate" where
  "fread n s =
     (let b = take n (drop (inpos s) (infile s))
      in (b, s\<lparr>inpos := inpos s + length b\<rparr>))"

text \<open>\<open>fwrite(buffer, 1, n, outfile)\<close>: the number of bytes written.\<close>

definition fwrite :: "char list \<Rightarrow> pstate \<Rightarrow> nat \<times> pstate" where
  "fwrite b s =
     (case outroom s of
        None \<Rightarrow> (length b, s\<lparr>outfile := outfile s @ b\<rparr>)
      | Some r \<Rightarrow> (min r (length b),
                   s\<lparr>outfile := outfile s @ take r b, outroom := Some (r - min r (length b))\<rparr>))"

text \<open>\<open>fputs(str, outfile)\<close>: \<open>False\<close> is the result \<open>EOF\<close>, a write that fell short.\<close>

definition fputs :: "string \<Rightarrow> pstate \<Rightarrow> bool \<times> pstate" where
  "fputs str s = (let (n, s') = fwrite str s in (n = length str, s'))"

definition fseeko :: "nat \<Rightarrow> pstate \<Rightarrow> pstate" where
  "fseeko off s = s\<lparr>inpos := off\<rparr>"

text \<open>\<open>iscomment(x, y)\<close> is \<open>strncmp(x, y, strlen(y)) == 0\<close>: \<open>y\<close> is a prefix of the C
  string \<open>x\<close>.\<close>

definition iscomment :: "string \<Rightarrow> string \<Rightarrow> bool" where
  "iscomment x y = prefix y x"

definition isspace :: "char \<Rightarrow> bool" where
  "isspace c = (c \<in> set [CHR 0x20, CHR 0x09, CHR 0x0A, CHR 0x0B, CHR 0x0C, CHR 0x0D])"

definition isdigit :: "char \<Rightarrow> bool" where
  "isdigit c = (48 \<le> (of_char c :: nat) \<and> (of_char c :: nat) \<le> 57)"

text \<open>\<open>%d\<close> of \<open>printf\<close>.\<close>

function digits :: "nat \<Rightarrow> string" where
  "digits n =
     (if n < 10 then [char_of (48 + n)] else digits (n div 10) @ [char_of (48 + n mod 10)])"
  by pat_completeness auto
termination
  by (relation "measure id") auto

declare digits.simps [simp del]

definition showint :: "int \<Rightarrow> string" where
  "showint i = (if i < 0 then CHR ''-'' # digits (nat (- i)) else digits (nat i))"

text \<open>\<open>atoi\<close>: white space, an optional sign, digits.\<close>

fun atoi_digits :: "int \<Rightarrow> string \<Rightarrow> int" where
  "atoi_digits acc [] = acc"
| "atoi_digits acc (c # cs) =
     (if isdigit c then atoi_digits (10 * acc + (int (of_char c) - 48)) cs else acc)"

definition atoi :: "string \<Rightarrow> int" where
  "atoi str =
     (let t = dropWhile isspace str
      in case t of
           [] \<Rightarrow> 0
         | c # cs \<Rightarrow> if c = CHR ''-'' then - atoi_digits 0 cs
                     else if c = CHR ''+'' then atoi_digits 0 cs
                     else atoi_digits 0 t)"

text \<open>The cast \<open>(int) x\<close> of a double truncates towards zero.\<close>

definition trunc_int :: "real \<Rightarrow> int" where
  "trunc_int x = (if x < 0 then - \<lfloor>- x\<rfloor> else \<lfloor>x\<rfloor>)"

subsection \<open>Output routines\<close>

text \<open>\<open>writestring\<close>: \<open>fputs\<close>, its result ignored, and \<open>bytes += strlen(s)\<close>.\<close>

definition writestring :: "string \<Rightarrow> pstate \<Rightarrow> pstate" where
  "writestring str s = (let (ok, s') = fputs str s in s'\<lparr>bytes := bytes s' + int (length str)\<rparr>)"

text \<open>
  Modelled from the spec: \<open>writestringf\<close>, which psspec.c calls and psutil.c does not
  define. The spec's output writer provides "raw string write; formatted write" and counts
  the bytes of both, so the formatted write is \<open>writestring\<close> of the formatted text. The
  text \<open>printf\<close> gives for \<open>%f\<close> is a parameter \<open>fmt\<close> of the model wherever a double
  is printed.
\<close>

definition writestringf :: "string \<Rightarrow> pstate \<Rightarrow> pstate" where
  "writestringf txt s = writestring txt s"

text \<open>\<open>writepageheader(label, page)\<close>; \<open>page\<close> only goes to the log and is left out.\<close>

definition writepageheader :: "string \<Rightarrow> pstate \<Rightarrow> pstate" where
  "writepageheader label s =
     (let s1 = s\<lparr>outputpage := outputpage s + 1\<rparr>
      in writestring (''%%Page: '' @ label @ '' '' @ showint (outputpage s1) @ ''\<newline>'') s1)"

subsection \<open>\<open>fcopy\<close>\<close>

text \<open>The loop \<open>while (bytes_left > 0)\<close> of \<open>fcopy\<close>; \<open>False\<close> is \<open>return (0)\<close>.\<close>

function copyloop :: "nat \<Rightarrow> pstate \<Rightarrow> bool \<times> pstate" where
  "copyloop bytes_left s =
     (if bytes_left > 0
      then (let numtocopy = (if bytes_left > BUFSIZ then BUFSIZ else bytes_left);
                (buf, s1) = fread numtocopy s
            in if length buf < numtocopy then (False, s1)
               else (let (w, s2) = fwrite buf s1
                     in if w < numtocopy then (False, s2)
                        else copyloop (bytes_left - numtocopy)
                               (s2\<lparr>bytes := bytes s2 + int numtocopy\<rparr>)))
      else (True, s))"
  by pat_completeness auto
termination
  by (relation "measure (\<lambda>(bytes_left, s). bytes_left)") (auto simp: BUFSIZ_def)

declare copyloop.simps [simp del]

text \<open>\<open>fcopy(upto, NULL)\<close>.\<close>

definition fcopy_null :: "nat \<Rightarrow> pstate \<Rightarrow> bool \<times> pstate" where
  "fcopy_null up_to s = copyloop (up_to - inpos s) s"

text \<open>
  The ignore list is a 0-terminated array of offsets, walked by a pointer. The model's list
  holds the entries from the pointer on; its end is the terminator, and an entry 0 inside
  the list stops the walk as the terminator does.

  \<open>skip_ign here\<close> is \<open>while (*ignorelist > 0 && *ignorelist < here) ignorelist++\<close>.
\<close>

fun skip_ign :: "nat \<Rightarrow> nat list \<Rightarrow> nat list" where
  "skip_ign here [] = []"
| "skip_ign here (e # es) = (if e > 0 \<and> e < here then skip_ign here es else e # es)"

text \<open>The loop \<open>while (*ignorelist > 0 && *ignorelist < upto)\<close>; \<open>False\<close> is
  \<open>return 0\<close>.\<close>

function ignloop :: "nat \<Rightarrow> nat list \<Rightarrow> pstate \<Rightarrow> bool \<times> pstate" where
  "ignloop up_to [] s = (True, s)"
| "ignloop up_to (e # es) s =
     (if e > 0 \<and> e < up_to
      then (let (r, s1) = fcopy_null e s
            in if \<not> r then (False, s1)
               else (case fgets s1 of
                       (None, s2) \<Rightarrow> (False, s2)
                     | (Some l, s2) \<Rightarrow> ignloop up_to (skip_ign (inpos s2) es) s2))
      else (True, s))"
  by pat_completeness auto
termination
proof (relation "measure (\<lambda>(up_to, es, s). length es)")
  have len: "length (skip_ign here es) \<le> length es" for here es
    by (induction es) auto
  show "wf (measure (\<lambda>(up_to, es, s). length es))"
    by simp
  show "((up_to, skip_ign (inpos s2) es, s2), up_to, e # es, s) \<in> measure (\<lambda>(up_to, es, s). length es)"
    for up_to e es s s2
    using len [of "inpos s2" es] by simp
qed

declare ignloop.simps [simp del]

text \<open>\<open>fcopy(upto, ignorelist)\<close>; \<open>None\<close> is the NULL list.\<close>

definition fcopy :: "nat \<Rightarrow> nat list option \<Rightarrow> pstate \<Rightarrow> bool \<times> pstate" where
  "fcopy up_to ignorelist s =
     (case ignorelist of
        None \<Rightarrow> fcopy_null up_to s
      | Some ign \<Rightarrow>
          (let (r, s1) = ignloop up_to (skip_ign (inpos s) ign) s
           in if \<not> r then (False, s1) else copyloop (up_to - inpos s1) s1))"

subsection \<open>\<open>scanpages\<close>\<close>

text \<open>
  One line of the scan: the body of the \<open>while\<close> loop of \<open>scanpages\<close>, after
  \<open>fgets\<close> has read the line, as the branch of the \<open>if\<close> chain the line takes
  (\<open>branch_of\<close>) and what that branch does (\<open>branch_step\<close>). \<open>rec\<close> is the offset \<open>record\<close> of the line,
  \<open>buffer\<close> the C string read, the position of \<open>s\<close> the one after the line
  (\<open>ftello(infile)\<close>). \<open>sh\<close> is the array \<open>sizeheaders\<close> as far as it is written
  (\<open>None\<close> for the NULL pointer) and \<open>cap\<close> the number of its elements: storing an
  entry and the terminator after it beyond \<open>cap\<close> elements is outside the array.
\<close>

datatype scanstep = Next int "nat list option" pstate | Break pstate | Overrun

definition add_sizeheader :: "nat \<Rightarrow> nat \<Rightarrow> int \<Rightarrow> nat list option \<Rightarrow> pstate \<Rightarrow> scanstep" where
  "add_sizeheader cap rec nesting sh s =
     (case sh of
        None \<Rightarrow> Next nesting None s
      | Some xs \<Rightarrow> if length xs + 1 < cap then Next nesting (Some (xs @ [rec])) s else Overrun)"

text \<open>The branch of the \<open>if\<close> chain that a line takes, in the order of the source.\<close>

datatype branch =
    BPage | BBoundingBox | BHiResBoundingBox | BDocumentPaperSizes | BDocumentMedia | BPages
  | BEndComments | BBegin | BEnd | BEndSetup | BBeginProlog | BBeginProcSet | BEndProcSet
  | BTrailer | BNoComment | BHeaderEnd | BSkip

definition branch_of :: "string \<Rightarrow> int \<Rightarrow> pstate \<Rightarrow> branch" where
  "branch_of buffer nesting s =
     (let comment = drop 2 buffer
      in if take 1 buffer = ''%''
         then (if take 1 (drop 1 buffer) = ''%''
               then (if nesting = 0 \<and> iscomment comment ''Page:'' then BPage
                     else if headerpos s = 0 \<and> iscomment comment ''BoundingBox:''
                     then BBoundingBox
                     else if headerpos s = 0 \<and> iscomment comment ''HiResBoundingBox:''
                     then BHiResBoundingBox
                     else if headerpos s = 0 \<and> iscomment comment ''DocumentPaperSizes:''
                     then BDocumentPaperSizes
                     else if headerpos s = 0 \<and> iscomment comment ''DocumentMedia:''
                     then BDocumentMedia
                     else if headerpos s = 0 \<and> iscomment comment ''Pages:'' then BPages
                     else if headerpos s = 0 \<and> iscomment comment ''EndComments''
                     then BEndComments
                     else if iscomment comment ''BeginDocument'' \<or>
                             iscomment comment ''BeginBinary'' \<or>
                             iscomment comment ''BeginFile''
                     then BBegin
                     else if iscomment comment ''EndDocument'' \<or>
                             iscomment comment ''EndBinary'' \<or>
                             iscomment comment ''EndFile''
                     then BEnd
                     else if nesting = 0 \<and> iscomment comment ''EndSetup'' then BEndSetup
                     else if nesting = 0 \<and> iscomment comment ''BeginProlog'' then BBeginProlog
                     else if nesting = 0 \<and> iscomment comment ''BeginProcSet: PStoPS''
                     then BBeginProcSet
                     else if beginprocset s \<noteq> 0 \<and> endprocset s = 0 \<and>
                             iscomment comment ''EndProcSet''
                     then BEndProcSet
                     else if nesting = 0 \<and> (iscomment comment ''Trailer'' \<or>
                                              iscomment comment ''EOF'')
                     then BTrailer
                     else BSkip)
               else if headerpos s = 0 \<and> take 1 (drop 1 buffer) \<noteq> ''!'' then BNoComment
               else BSkip)
         else if headerpos s = 0 then BHeaderEnd
         else BSkip)"

text \<open>What each branch does.\<close>

fun branch_step :: "branch \<Rightarrow> nat \<Rightarrow> nat \<Rightarrow> int \<Rightarrow> nat list option \<Rightarrow> pstate \<Rightarrow> scanstep" where
  "branch_step BPage cap rec nesting sh s =
     Next nesting sh (s\<lparr>pageptr := pageptr s @ [rec], pages := pages s + 1\<rparr>)"
| "branch_step BBoundingBox cap rec nesting sh s = add_sizeheader cap rec nesting sh s"
| "branch_step BHiResBoundingBox cap rec nesting sh s = add_sizeheader cap rec nesting sh s"
| "branch_step BDocumentPaperSizes cap rec nesting sh s = add_sizeheader cap rec nesting sh s"
| "branch_step BDocumentMedia cap rec nesting sh s = add_sizeheader cap rec nesting sh s"
| "branch_step BPages cap rec nesting sh s = Next nesting sh (s\<lparr>pagescmt := rec\<rparr>)"
| "branch_step BEndComments cap rec nesting sh s = Next nesting sh (s\<lparr>headerpos := inpos s\<rparr>)"
| "branch_step BBegin cap rec nesting sh s = Next (nesting + 1) sh s"
| "branch_step BEnd cap rec nesting sh s = Next (nesting - 1) sh s"
| "branch_step BEndSetup cap rec nesting sh s = Next nesting sh (s\<lparr>endsetup := rec\<rparr>)"
| "branch_step BBeginProlog cap rec nesting sh s = Next nesting sh (s\<lparr>headerpos := inpos s\<rparr>)"
| "branch_step BBeginProcSet cap rec nesting sh s = Next nesting sh (s\<lparr>beginprocset := rec\<rparr>)"
| "branch_step BEndProcSet cap rec nesting sh s = Next nesting sh (s\<lparr>endprocset := inpos s\<rparr>)"
| "branch_step BTrailer cap rec nesting sh s = Break (fseeko rec s)"
| "branch_step BNoComment cap rec nesting sh s = Next nesting sh (s\<lparr>headerpos := rec\<rparr>)"
| "branch_step BHeaderEnd cap rec nesting sh s = Next nesting sh (s\<lparr>headerpos := rec\<rparr>)"
| "branch_step BSkip cap rec nesting sh s = Next nesting sh s"

definition scanline :: "nat \<Rightarrow> nat \<Rightarrow> string \<Rightarrow> int \<Rightarrow> nat list option \<Rightarrow> pstate \<Rightarrow> scanstep" where
  "scanline cap rec buffer nesting sh s =
     branch_step (branch_of buffer nesting s) cap rec nesting sh s"

text \<open>The \<open>while\<close> loop of \<open>scanpages\<close>: the array \<open>sizeheaders\<close> and the state when
  the loop is left.\<close>

function scanloop :: "nat \<Rightarrow> int \<Rightarrow> nat list option \<Rightarrow> pstate \<Rightarrow> error + (nat list option \<times> pstate)" where
  "scanloop cap nesting sh s =
     (case fgets s of
        (None, s1) \<Rightarrow> Inr (sh, s1)
      | (Some l, s1) \<Rightarrow>
          (case scanline cap (inpos s) (cstr l) nesting sh s1 of
             Overrun \<Rightarrow> Inl OutOfBounds
           | Break s2 \<Rightarrow> Inr (sh, s2)
           | Next nesting' sh' s2 \<Rightarrow>
               scanloop cap nesting' sh' s2))"
  by pat_completeness auto
termination
proof (relation "measure (\<lambda>(cap, nesting, sh, s). length (infile s) - inpos s)", goal_cases)
  case 1
  show ?case by simp
next
  case (2 cap nesting sh s x y l nesting' sh' s2)
  have len: "length (getline n cs) \<le> length cs" for n cs
    by (induction n cs rule: getline.induct) auto
  have emp: "getline n [] = []" for n
    by simp
  have "drop (inpos s) (infile s) \<noteq> []"
    using "2" emp by (auto simp: fgets_def Let_def split: if_splits)
  then have "inpos s < length (infile s)"
    by simp
  then have "infile y = infile s \<and> inpos s < inpos y \<and> inpos y \<le> length (infile s)"
    using "2" len [of "BUFSIZ - 1" "drop (inpos s) (infile s)"]
    by (auto simp: fgets_def Let_def split: if_splits)
  moreover have "infile s2 = infile y \<and> inpos s2 = inpos y"
    by (cases "branch_of (cstr l) nesting y")
       (use "2" in \<open>auto simp: scanline_def add_sizeheader_def split: option.splits if_splits\<close>)
  ultimately show ?case
    by auto
qed

declare scanloop.simps [simp del]

text \<open>
  \<open>scanpages(sizeheaders)\<close>. The static variables \<open>headerpos\<close>, \<open>pagescmt\<close>,
  \<open>endsetup\<close>, \<open>beginprocset\<close> and \<open>endprocset\<close> are not reset: they are 0 when the
  program starts. With no \<open>%%Page:\<close> comment, \<open>pageptr[0]\<close> is the entry the last
  line of the function has just stored.
\<close>

definition scan_finish :: "pstate \<Rightarrow> pstate" where
  "scan_finish s =
     (let s1 = s\<lparr>pageptr := pageptr s @ [inpos s]\<rparr>
      in if endsetup s1 = 0 \<or> endsetup s1 > pageptr s1 ! 0
         then s1\<lparr>endsetup := pageptr s1 ! 0\<rparr> else s1)"

definition scanpages :: "nat \<Rightarrow> nat list option \<Rightarrow> pstate \<Rightarrow> error + (nat list option \<times> pstate)" where
  "scanpages cap sizeheaders s =
     (if sizeheaders \<noteq> None \<and> cap = 0 then Inl OutOfBounds
      else (let sh = map_option (\<lambda>xs. []) sizeheaders;
                s0 = fseeko 0 (s\<lparr>pageptr := [], pages := 0\<rparr>)
            in case scanloop cap 0 sh s0 of
                 Inl e \<Rightarrow> Inl e
               | Inr (sh', s1) \<Rightarrow> Inr (sh', scan_finish s1)))"

subsection \<open>\<open>seekpage\<close>\<close>

text \<open>The loop over \<open>end\<close> for a label in parentheses: the rest of the string at
  \<open>end\<close> when the loop is left, \<open>None\<close> when it meets the terminator.\<close>

fun paren_end :: "int \<Rightarrow> string \<Rightarrow> string option" where
  "paren_end paren [] = None"
| "paren_end paren (c # cs) =
     (let paren' = (if c = CHR ''('' then paren + 1 else if c = CHR '')'' then paren - 1 else paren)
      in if paren' > 0 then paren_end paren' cs else Some cs)"

text \<open>
  \<open>seekpage(p)\<close>. An index outside \<open>pageptr\<close>, and the loop \<open>for (end = start;
  !isspace(*end); end++)\<close> running over the terminator of the string, are outside what C
  defines: the model gives \<open>OutOfBounds\<close>.
\<close>

definition seekpage :: "int \<Rightarrow> pstate \<Rightarrow> error + pstate" where
  "seekpage p s =
     (if p < 0 \<or> int (length (pageptr s)) \<le> p then Inl OutOfBounds
      else (case fgets (fseeko (pageptr s ! nat p) s) of
              (None, s1) \<Rightarrow> Inl (SeekError p)
            | (Some l, s1) \<Rightarrow>
                (let buffer = cstr l
                 in if iscomment buffer ''%%Page:''
                    then (let start = dropWhile isspace (drop 7 buffer)
                          in if take 1 start = ''(''
                             then (case paren_end 1 (drop 1 start) of
                                     None \<Rightarrow> Inl (BadPageLabel p)
                                   | Some e \<Rightarrow>
                                       Inr (s1\<lparr>pagelabel := take (length start - length e) start,
                                                pageno := atoi e\<rparr>))
                             else (let e = dropWhile (\<lambda>c. \<not> isspace c) start
                                   in if e = [] then Inl OutOfBounds
                                      else Inr (s1\<lparr>pagelabel := take (length start - length e) start,
                                                    pageno := atoi e\<rparr>)))
                    else Inl (SeekError p))))"

subsection \<open>The writers of psutil.c\<close>

text \<open>The \<open>for (;;)\<close> loop of \<open>writepagesetup\<close>.\<close>

function pagesetuploop :: "pstate \<Rightarrow> error + pstate" where
  "pagesetuploop s =
     (case fgets s of
        (None, s1) \<Rightarrow> Inl (PageSetupReadError (outputpage s1))
      | (Some l, s1) \<Rightarrow>
          (let buffer = cstr l
           in if prefix ''PStoPSxform'' buffer then Inr s1
              else (case fputs buffer s1 of
                      (False, s2) \<Rightarrow> Inl (PageSetupWriteError (outputpage s2))
                    | (True, s2) \<Rightarrow>
                        pagesetuploop (s2\<lparr>bytes := bytes s2 + int (length buffer)\<rparr>))))"
  by pat_completeness auto
termination
proof (relation "measure (\<lambda>s. length (infile s) - inpos s)", goal_cases)
  case 1
  show ?case by simp
next
  case (2 s x y l buffer ok s2)
  have len: "length (getline n cs) \<le> length cs" for n cs
    by (induction n cs rule: getline.induct) auto
  have emp: "getline n [] = []" for n
    by simp
  have "drop (inpos s) (infile s) \<noteq> []"
    using "2" emp by (auto simp: fgets_def Let_def split: if_splits)
  then have "inpos s < length (infile s)"
    by simp
  then have "infile y = infile s \<and> inpos s < inpos y \<and> inpos y \<le> length (infile s)"
    using "2" len [of "BUFSIZ - 1" "drop (inpos s) (infile s)"]
    by (auto simp: fgets_def Let_def split: if_splits)
  moreover have "infile s2 = infile y \<and> inpos s2 = inpos y"
    using "2" by (auto simp: fputs_def fwrite_def split: option.splits)
  ultimately show ?case
    by auto
qed

declare pagesetuploop.simps [simp del]

definition writepagesetup :: "pstate \<Rightarrow> error + pstate" where
  "writepagesetup s = (if beginprocset s \<noteq> 0 then pagesetuploop s else Inr s)"

definition writepagebody :: "int \<Rightarrow> pstate \<Rightarrow> error + pstate" where
  "writepagebody p s =
     (if p + 1 < 0 \<or> int (length (pageptr s)) \<le> p + 1 then Inl OutOfBounds
      else (let (r, s1) = fcopy (pageptr s ! nat (p + 1)) None s
            in if \<not> r then Inl (PageWriteError (outputpage s1)) else Inr s1))"

definition writeheadermedia :: "int \<Rightarrow> nat list option \<Rightarrow> real \<Rightarrow> real \<Rightarrow> pstate \<Rightarrow> error + pstate" where
  "writeheadermedia p ignore w h s =
     (let s0 = fseeko 0 s
      in case (if pagescmt s0 \<noteq> 0
               then (let (r, s1) = fcopy (pagescmt s0) ignore s0
                     in if \<not> r then Inl HeaderError
                        else (case fgets s1 of
                                (None, s2) \<Rightarrow> Inl HeaderError
                              | (Some l, s2) \<Rightarrow>
                                  (let s3 = (if w > - 1 \<and> h > - 1
                                             then writestring
                                                    (''%%BoundingBox: 0 0 '' @ showint (trunc_int w) @
                                                     '' '' @ showint (trunc_int h) @ ''\<newline>'')
                                                    (writestring
                                                       (''%%DocumentMedia: plain '' @
                                                        showint (trunc_int w) @ '' '' @
                                                        showint (trunc_int h) @ '' 0 () ()\<newline>'')
                                                       s2)
                                             else s2)
                                   in Inr (writestring (''%%Pages: '' @ showint p @ '' 0\<newline>'') s3))))
               else Inr s0) of
           Inl e \<Rightarrow> Inl e
         | Inr s4 \<Rightarrow>
             (let (r, s5) = fcopy (headerpos s4) ignore s4
              in if \<not> r then Inl HeaderError else Inr s5))"

definition writeprolog :: "pstate \<Rightarrow> error + pstate" where
  "writeprolog s =
     (let (r, s1) = fcopy (endsetup s) None s
      in if \<not> r then Inl PrologueError else Inr s1)"

text \<open>\<open>writepartprolog\<close>: the state and the result \<open>!beginprocset\<close>.\<close>

definition writepartprolog :: "pstate \<Rightarrow> error + (bool \<times> pstate)" where
  "writepartprolog s =
     (case (if beginprocset s \<noteq> 0
            then (let (r, s1) = fcopy (beginprocset s) None s
                  in if \<not> r then Inl PrologueError else Inr s1)
            else Inr s) of
        Inl e \<Rightarrow> Inl e
      | Inr s1 \<Rightarrow>
          (let s2 = (if endprocset s1 \<noteq> 0 then fseeko (endprocset s1) s1 else s1)
           in case writeprolog s2 of
                Inl e \<Rightarrow> Inl e
              | Inr s3 \<Rightarrow> Inr (beginprocset s3 = 0, s3)))"

definition writesetup :: "pstate \<Rightarrow> error + pstate" where
  "writesetup s =
     (if pageptr s = [] then Inl OutOfBounds
      else (let (r, s1) = fcopy (pageptr s ! 0) None s
            in if \<not> r then Inl PrologueError else Inr s1))"

text \<open>The \<open>while\<close> loop of \<open>writetrailer\<close>.\<close>

function trailerloop :: "pstate \<Rightarrow> pstate" where
  "trailerloop s =
     (case fgets s of
        (None, s1) \<Rightarrow> s1
      | (Some l, s1) \<Rightarrow>
          trailerloop (writestring (cstr l) s1))"
  by pat_completeness auto
termination
proof (relation "measure (\<lambda>s. length (infile s) - inpos s)", goal_cases)
  case 1
  show ?case by simp
next
  case (2 s x y l)
  have len: "length (getline n cs) \<le> length cs" for n cs
    by (induction n cs rule: getline.induct) auto
  have emp: "getline n [] = []" for n
    by simp
  have "drop (inpos s) (infile s) \<noteq> []"
    using "2" emp by (auto simp: fgets_def Let_def split: if_splits)
  then have "inpos s < length (infile s)"
    by simp
  then have "infile y = infile s \<and> inpos s < inpos y \<and> inpos y \<le> length (infile s)"
    using "2" len [of "BUFSIZ - 1" "drop (inpos s) (infile s)"]
    by (auto simp: fgets_def Let_def split: if_splits)
  moreover have "infile (writestring (cstr l) y) = infile y \<and>
      inpos (writestring (cstr l) y) = inpos y"
    by (auto simp: writestring_def fputs_def fwrite_def split: option.splits)
  ultimately show ?case
    by auto
qed

declare trailerloop.simps [simp del]

definition writetrailer :: "pstate \<Rightarrow> error + pstate" where
  "writetrailer s =
     (if pages s < 0 \<or> int (length (pageptr s)) \<le> pages s then Inl OutOfBounds
      else Inr (trailerloop (fseeko (pageptr s ! nat (pages s)) s)))"

section \<open>The emitter \<open>pstops\<close> (psspec.c)\<close>

text \<open>The PStoPS procset: the string constant \<open>prologue\<close>, one piece for each line of
  the source. A backslash at the end of a source line joins it to the next with nothing
  in between.\<close>

definition prologue :: string where
  "prologue =
     ''userdict begin'' @
     ''[/showpage/erasepage/copypage]{dup where{pop dup load'' @
     '' type/operatortype eq{ /PStoPSenablepage cvx 1 index'' @
     '' load 1 array astore cvx {} bind /ifelse cvx 4 array'' @
     '' astore cvx def}{pop}ifelse}{pop}ifelse}forall'' @
     '' /PStoPSenablepage true def'' @
     ''[/letter/legal/executivepage/a4/a4small/b5/com10envelope%nullify'' @
     '' /monarchenvelope/c5envelope/dlenvelope/lettersmall/note%paper'' @
     '' /folio/quarto/a5]{dup where{dup wcheck{exch{}put}%operators'' @
     '' {pop{}def}ifelse}{pop}ifelse}forall'' @
     ''/setpagedevice {pop}bind 1 index where{dup wcheck{3 1 roll put}'' @
     '' {pop def}ifelse}{def}ifelse'' @
     ''/PStoPSmatrix matrix currentmatrix def'' @
     ''/PStoPSxform matrix def/PStoPSclip{clippath}def'' @
     ''/defaultmatrix{PStoPSmatrix exch PStoPSxform exch concatmatrix}bind def'' @
     ''/initmatrix{matrix defaultmatrix setmatrix}bind def'' @
     ''/initclip[{matrix currentmatrix PStoPSmatrix setmatrix'' @
     '' [{currentpoint}stopped{$error/newerror false put{newpath}}'' @
     '' {/newpath cvx 3 1 roll/moveto cvx 4 array astore cvx}ifelse]'' @
     '' {[/newpath cvx{/moveto cvx}{/lineto cvx}'' @
     '' {/curveto cvx}{/closepath cvx}pathforall]cvx exch pop}'' @
     '' stopped{$error/errorname get/invalidaccess eq{cleartomark'' @
     '' $error/newerror false put cvx exec}{stop}ifelse}if}bind aload pop'' @
     '' /initclip dup load dup type dup/operatortype eq{pop exch pop}'' @
     '' {dup/arraytype eq exch/packedarraytype eq or'' @
     ''  {dup xcheck{exch pop aload pop}{pop cvx}ifelse}'' @
     ''  {pop cvx}ifelse}ifelse'' @
     '' {newpath PStoPSclip clip newpath exec setmatrix} bind aload pop]cvx def'' @
     ''/initgraphics{initmatrix newpath initclip 1 setlinewidth'' @
     '' 0 setlinecap 0 setlinejoin []0 setdash 0 setgray'' @
     '' 10 setmiterlimit}bind def'' @
     ''end\<newline>''"

text \<open>The line \<open>pstops\<close> writes when \<open>writepartprolog\<close> returns a non-zero value.\<close>

definition xform_line :: string where
  "xform_line =
     ''userdict/PStoPSxform PStoPSmatrix matrix currentmatrix'' @
     '' matrix invertmatrix matrix concatmatrix'' @
     '' matrix invertmatrix put\<newline>''"

text \<open>psspec.c, lines 145-149.\<close>

definition emit_partprolog :: "pstate \<Rightarrow> error + pstate" where
  "emit_partprolog s =
     (case writepartprolog s of
        Inl e \<Rightarrow> Inl e
      | Inr (r, s1) \<Rightarrow> Inr (if r then writestring xform_line s1 else s1))"

text \<open>psspec.c, lines 163-170: the page label, from the spec \<open>ps\<close> along its chain of
  \<open>ADD_NEXT\<close> flags. The first argument of \<open>label_loop\<close> is \<open>sep\<close>.\<close>

definition label_page :: "flagdefs \<Rightarrow> int \<Rightarrow> int \<Rightarrow> int \<Rightarrow> PageSpec \<Rightarrow> int" where
  "label_page F maxpage thispg modl np =
     (if ps_flags np AND REVERSED F \<noteq> 0
      then maxpage - thispg - modl + ps_pageno np else thispg + ps_pageno np)"

fun label_loop :: "char \<Rightarrow> flagdefs \<Rightarrow> int \<Rightarrow> int \<Rightarrow> int \<Rightarrow> PageSpec list \<Rightarrow> string" where
  "label_loop sep F maxpage thispg modl [] = []"
| "label_loop sep F maxpage thispg modl (np # rest) =
     sep # showint (label_page F maxpage thispg modl np) @
     (if ps_flags np AND ADD_NEXT F \<noteq> 0 \<and> rest \<noteq> []
      then label_loop CHR '','' F maxpage thispg modl rest else [])"

definition mklabel :: "flagdefs \<Rightarrow> int \<Rightarrow> int \<Rightarrow> int \<Rightarrow> PageSpec list \<Rightarrow> string" where
  "mklabel F maxpage thispg modl pss = label_loop CHR ''('' F maxpage thispg modl pss @ '')''"

text \<open>psspec.c, lines 174-194: the block under \<open>if (ps->flags & GSAVE)\<close>. \<open>fmt\<close> is the
  text of a double under \<open>%f\<close>.\<close>

definition gsave_block :: "flagdefs \<Rightarrow> (real \<Rightarrow> string) \<Rightarrow> real \<Rightarrow> PageSpec \<Rightarrow> pstate \<Rightarrow> pstate" where
  "gsave_block F fmt draw ps s =
     (let s1 = writestring ''PStoPSmatrix setmatrix\<newline>'' s;
          s2 = (if ps_flags ps AND OFFSET F \<noteq> 0
                then writestringf (fmt (ps_xoff ps) @ '' '' @ fmt (ps_yoff ps) @ '' translate\<newline>'') s1
                else s1);
          s3 = (if ps_flags ps AND ROTATE F \<noteq> 0
                then writestringf (showint (ps_rotate ps) @ '' rotate\<newline>'') s2
                else s2);
          s4 = (if ps_flags ps AND HFLIP F \<noteq> 0
                then writestringf (''[ -1 0 0 1 '' @ fmt (width s3 * ps_scale ps) @ '' 0 ] concat\<newline>'') s3
                else s3);
          s5 = (if ps_flags ps AND VFLIP F \<noteq> 0
                then writestringf (''[ 1 0 0 -1 0 '' @ fmt (height s4 * ps_scale ps) @ '' ] concat\<newline>'') s4
                else s4);
          s6 = (if ps_flags ps AND SCALE F \<noteq> 0
                then writestringf (fmt (ps_scale ps) @ '' dup scale\<newline>'') s5
                else s5);
          s7 = writestring ''userdict/PStoPSmatrix matrix currentmatrix put\<newline>'' s6
      in if width s7 > 0 \<and> height s7 > 0
         then (let s8 = writestringf
                          (''userdict/PStoPSclip{0 0 moveto'' @
                           '' '' @ fmt (width s7) @ '' 0 rlineto 0 '' @ fmt (height s7) @
                           '' rlineto -'' @ fmt (width s7) @ '' 0 rlineto'' @
                           '' closepath}put initclip\<newline>'') s7
               in if draw > 0
                  then writestringf (''gsave clippath 0 setgray '' @ fmt draw @
                                     '' setlinewidth stroke grestore\<newline>'') s8
                  else s8)
         else s7)"

text \<open>psspec.c, lines 197-203: the page, or the blank that pads the last sheet.\<close>

definition emit_body :: "int \<Rightarrow> pstate \<Rightarrow> error + pstate" where
  "emit_body actualpg s =
     (if actualpg < pages s
      then (case writepagesetup s of
              Inl e \<Rightarrow> Inl e
            | Inr s1 \<Rightarrow> writepagebody actualpg (writestring ''PStoPSxform concat\<newline>'' s1))
      else Inr (writestring (''PStoPSxform concat'' @ ''showpage\<newline>'') s))"

text \<open>
  psspec.c, lines 154-205: the loop over the specs of one sheet. The list is the chain from
  \<open>ps\<close> on; the first argument is \<open>add_last\<close>. The counter \<open>pageindex\<close> only goes to
  the log and is left out.
\<close>

fun specs_loop :: "bool \<Rightarrow> flagdefs \<Rightarrow> (real \<Rightarrow> string) \<Rightarrow> real \<Rightarrow> int \<Rightarrow> int \<Rightarrow> int \<Rightarrow>
    PageSpec list \<Rightarrow> pstate \<Rightarrow> error + pstate" where
  "specs_loop add_last F fmt draw maxpage modl thispg [] s = Inr s"
| "specs_loop add_last F fmt draw maxpage modl thispg (ps # rest) s =
     (let actualpg = label_page F maxpage thispg modl ps
      in case (if actualpg < pages s then seekpage actualpg s else Inr s) of
           Inl e \<Rightarrow> Inl e
         | Inr s1 \<Rightarrow>
             (let s2 = (if \<not> add_last
                        then (let lbl = mklabel F maxpage thispg modl (ps # rest)
                              in writepageheader lbl (s1\<lparr>pagelabel := lbl\<rparr>))
                        else s1);
                  s3 = writestring ''userdict/PStoPSsaved save put\<newline>'' s2;
                  s4 = (if ps_flags ps AND GSAVE F \<noteq> 0 then gsave_block F fmt draw ps s3 else s3);
                  add_last' = (ps_flags ps AND ADD_NEXT F \<noteq> 0);
                  s5 = (if add_last' then writestring ''/PStoPSenablepage false def\<newline>'' s4
                        else s4)
              in case emit_body actualpg s5 of
                   Inl e \<Rightarrow> Inl e
                 | Inr s6 \<Rightarrow>
                     specs_loop add_last' F fmt draw maxpage modl thispg rest
                       (writestring ''PStoPSsaved restore\<newline>'' s6)))"

text \<open>
  psspec.c, lines 152-206: the loop over the sheets (\<open>modl\<close> is the parameter
  \<open>modulo\<close>). \<open>pstops\<close> is called with \<open>modulo = nup \<ge> 1\<close>: psnup.c refuses 0,
  and \<open>parseint\<close> reads digits only. With \<open>modulo \<le> 0\<close> a loop that is entered has no
  end, since \<open>thispg\<close> does not grow, and with \<open>modulo = 0\<close> the first line of
  \<open>pstops\<close> divides by zero; for both the model gives \<open>BadModulo\<close>.
\<close>

function pages_loop :: "flagdefs \<Rightarrow> (real \<Rightarrow> string) \<Rightarrow> real \<Rightarrow> int \<Rightarrow> int \<Rightarrow> PageSpec list \<Rightarrow>
    int \<Rightarrow> pstate \<Rightarrow> error + pstate" where
  "pages_loop F fmt draw maxpage modl specs thispg s =
     (if thispg < maxpage
      then (case specs_loop False F fmt draw maxpage modl thispg specs s of
              Inl e \<Rightarrow> Inl e
            | Inr s1 \<Rightarrow>
                if modl \<le> 0 then Inl BadModulo
                else pages_loop F fmt draw maxpage modl specs (thispg + modl) s1)
      else Inr s)"
  by pat_completeness auto
termination
  by (relation "measure (\<lambda>(F, fmt, draw, maxpage, modl, specs, thispg, s). nat (maxpage - thispg))")
     auto

declare pages_loop.simps [simp del]

text \<open>psspec.c, lines 136-143.\<close>

definition emit_procset :: "bool \<Rightarrow> pstate \<Rightarrow> pstate" where
  "emit_procset nobind s =
     (let s1 = writestring ''%%BeginProcSet: PStoPS'' s;
          s2 = (if nobind then writestring ''-nobind'' s1 else s1);
          s3 = writestring '' 1 15\<newline>'' s2;
          s4 = writestring prologue s3;
          s5 = (if nobind then writestring ''/bind{}def\<newline>'' s4 else s4)
      in writestring ''%%EndProcSet\<newline>'' s5)"

definition maxpage_of :: "int \<Rightarrow> int \<Rightarrow> int" where
  "maxpage_of pgs modl = ((pgs + modl - 1) sdiv modl) * modl"

definition pstops :: "flagdefs \<Rightarrow> (real \<Rightarrow> string) \<Rightarrow> int \<Rightarrow> int \<Rightarrow> bool \<Rightarrow> PageSpec list \<Rightarrow> real \<Rightarrow>
    nat list option \<Rightarrow> pstate \<Rightarrow> error + pstate" where
  "pstops F fmt modl pps nobind specs draw ignorelist s =
     (if modl = 0 then Inl BadModulo
      else (let maxpage = maxpage_of (pages s) modl
            in case writeheadermedia ((maxpage sdiv modl) * pps) ignorelist (width s) (height s) s of
                 Inl e \<Rightarrow> Inl e
               | Inr s1 \<Rightarrow>
                   (case emit_partprolog (emit_procset nobind s1) of
                      Inl e \<Rightarrow> Inl e
                    | Inr s2 \<Rightarrow>
                        (case writesetup s2 of
                           Inl e \<Rightarrow> Inl e
                         | Inr s3 \<Rightarrow>
                             (case pages_loop F fmt draw maxpage modl specs 0 s3 of
                                Inl e \<Rightarrow> Inl e
                              | Inr s4 \<Rightarrow> writetrailer s4)))))"

section \<open>Dimension arguments (psspec.c)\<close>

text \<open>
  \<open>atof\<close> belongs to the C library; the value it gives is a parameter of the model. A
  command-line argument is a C string without NUL bytes. \<open>*sp == s\<close> holds when the loop
  has consumed no character. The results are the value and the rest of the string
  (\<open>*sp\<close>).
\<close>

definition parsedouble :: "(string \<Rightarrow> real) \<Rightarrow> string \<Rightarrow> error + (real \<times> string)" where
  "parsedouble atof str =
     (let num = atof str;
          s = dropWhile (\<lambda>c. isdigit c \<or> c = CHR ''-'' \<or> c = CHR ''.'') str
      in if length s = length str then Inl ArgError else Inr (num, s))"

definition parsedimen :: "(string \<Rightarrow> real) \<Rightarrow> real \<Rightarrow> real \<Rightarrow> string \<Rightarrow> error + (real \<times> string)" where
  "parsedimen atof w h str =
     (case parsedouble atof str of
        Inl e \<Rightarrow> Inl e
      | Inr (num, s) \<Rightarrow>
          if take 2 s = ''pt'' then Inr (num, drop 2 s)
          else if take 2 s = ''in'' then Inr (num * 72, drop 2 s)
          else if take 2 s = ''cm'' then Inr (num * 28.346456692913385211, drop 2 s)
          else if take 2 s = ''mm'' then Inr (num * 2.8346456692913385211, drop 2 s)
          else if take 1 s = ''w'' then (if w < 0 then Inl WidthNotSet else Inr (num * w, drop 1 s))
          else if take 1 s = ''h'' then (if h < 0 then Inl HeightNotSet else Inr (num * h, drop 1 s))
          else Inr (num, s))"

definition singledimen :: "(string \<Rightarrow> real) \<Rightarrow> real \<Rightarrow> real \<Rightarrow> string \<Rightarrow> error + real" where
  "singledimen atof w h str =
     (case parsedimen atof w h str of
        Inl e \<Rightarrow> Inl e
      | Inr (num, s) \<Rightarrow> if s \<noteq> [] then Inl UsageError else Inr num)"

text \<open>The characters \<open>parsedouble\<close> consumes.\<close>

definition consumed :: "string \<Rightarrow> string" where
  "consumed str = takeWhile (\<lambda>c. isdigit c \<or> c = CHR ''-'' \<or> c = CHR ''.'') str"

section \<open>The layout search and \<open>main\<close> (psnup.c)\<close>

function nextdiv :: "int \<Rightarrow> int \<Rightarrow> int" where
  "nextdiv n m =
     (if n + 1 \<le> m then (if m smod (n + 1) = 0 then n + 1 else nextdiv (n + 1) m) else 0)"
  by pat_completeness auto
termination
  by (relation "measure (\<lambda>(n, m). nat (m - n))") auto

declare nextdiv.simps [simp del]

text \<open>The variables the search assigns: \<open>best\<close>, \<open>scale\<close>, \<open>hshift\<close>, \<open>vshift\<close>,
  \<open>horiz\<close>, \<open>vert\<close> and \<open>rotate\<close>.\<close>

record search =
  b_best :: real
  b_scale :: real
  b_hshift :: real
  b_vshift :: real
  b_horiz :: int
  b_vert :: int
  b_rotate :: bool

text \<open>psnup.c, lines 178-206: the body of the loop, for one \<open>hor\<close>. \<open>MIN\<close> is the
  smaller of two doubles; \<open>w\<close> and \<open>h\<close> are the globals \<open>width\<close> and \<open>height\<close>.\<close>

definition try_hor :: "real \<Rightarrow> real \<Rightarrow> real \<Rightarrow> real \<Rightarrow> real \<Rightarrow> bool \<Rightarrow> int \<Rightarrow> int \<Rightarrow> search \<Rightarrow> search" where
  "try_hor w h ppwid pphgt border flip nup hor b =
     (let ver = nup sdiv hor;
          scl = min (pphgt / (h * of_int ver)) (ppwid / (w * of_int hor));
          optim = (ppwid - scl * w * of_int hor) * (ppwid - scl * w * of_int hor) +
                  (pphgt - scl * h * of_int ver) * (pphgt - scl * h * of_int ver);
          b1 = (if optim < b_best b
                then (let scale = min ((pphgt - 2 * border * of_int ver) / (h * of_int ver))
                                      ((ppwid - 2 * border * of_int hor) / (w * of_int hor))
                      in b\<lparr>b_best := optim, b_scale := scale,
                           b_hshift := (ppwid / of_int hor - w * scale) / 2,
                           b_vshift := (pphgt / of_int ver - h * scale) / 2,
                           b_horiz := hor, b_vert := ver, b_rotate := flip\<rparr>)
                else b);
          scl' = min (pphgt / (w * of_int hor)) (ppwid / (h * of_int ver));
          optim' = (pphgt - scl' * w * of_int hor) * (pphgt - scl' * w * of_int hor) +
                   (ppwid - scl' * h * of_int ver) * (ppwid - scl' * h * of_int ver)
      in if optim' < b_best b1
         then (let scale = min ((pphgt - 2 * border * of_int hor) / (w * of_int hor))
                               ((ppwid - 2 * border * of_int ver) / (h * of_int ver))
               in b1\<lparr>b_best := optim', b_scale := scale,
                     b_hshift := (ppwid / of_int ver - h * scale) / 2,
                     b_vshift := (pphgt / of_int hor - w * scale) / 2,
                     b_horiz := ver, b_vert := hor, b_rotate := \<not> flip\<rparr>)
         else b1)"

text \<open>psnup.c, line 177: \<open>for (long hor = 1; hor; hor = nextdiv(hor, nup))\<close>.\<close>

function layout_loop :: "real \<Rightarrow> real \<Rightarrow> real \<Rightarrow> real \<Rightarrow> real \<Rightarrow> bool \<Rightarrow> int \<Rightarrow> int \<Rightarrow> search \<Rightarrow> search" where
  "layout_loop w h ppwid pphgt border flip nup hor b =
     (if hor \<noteq> 0
      then layout_loop w h ppwid pphgt border flip nup (nextdiv hor nup)
             (try_hor w h ppwid pphgt border flip nup hor b)
      else b)"
  by pat_completeness auto
termination
proof (relation "measure (\<lambda>(w, h, ppwid, pphgt, border, flip, nup, hor, b).
          if hor = 0 then 0 else nat (nup - hor) + 1)", goal_cases)
  case 1
  show ?case by simp
next
  case (2 w h ppwid pphgt border flip nup hor b)
  have nd: "nextdiv n m \<noteq> 0 \<Longrightarrow> n < nextdiv n m \<and> nextdiv n m \<le> m" for n m
  proof (induction n m rule: nextdiv.induct)
    case (1 n m)
    show ?case
    proof (cases "n + 1 \<le> m \<and> m smod (n + 1) \<noteq> 0")
      case True
      then have "nextdiv n m = nextdiv (n + 1) m"
        by (subst nextdiv.simps) simp
      then show ?thesis
        using "1.IH" "1.prems" True by auto
    next
      case False
      then consider "\<not> n + 1 \<le> m" | "n + 1 \<le> m" "m smod (n + 1) = 0"
        by blast
      then show ?thesis
      proof cases
        case 1
        then have "nextdiv n m = 0"
          by (subst nextdiv.simps) simp
        then show ?thesis
          using "1.prems" by simp
      next
        case 2
        then have "nextdiv n m = n + 1"
          by (subst nextdiv.simps) simp
        then show ?thesis
          using 2 by simp
      qed
    qed
  qed
  show ?case
    using 2 nd [of hor nup] by auto
qed

declare layout_loop.simps [simp del]

text \<open>
  The command line, as the option loop of \<open>main\<close> leaves it: \<open>nup\<close>, \<open>draw\<close>,
  \<open>uscale\<close>, \<open>margin\<close>, \<open>border\<close>, \<open>tolerance\<close>, \<open>flip\<close>, \<open>column\<close>,
  \<open>leftright\<close>, \<open>topbottom\<close>, \<open>iwidth\<close> and \<open>iheight\<close>; the output size is in the
  globals \<open>width\<close> and \<open>height\<close>.
\<close>

record options =
  o_nup :: int
  o_draw :: real
  o_uscale :: real
  o_margin :: real
  o_border :: real
  o_tolerance :: real
  o_flip :: bool
  o_column :: bool
  o_leftright :: bool
  o_topbottom :: bool
  o_iwidth :: real
  o_iheight :: real

text \<open>psnup.c, lines 176-207, with the initial values of lines 41-57.\<close>

definition find_layout :: "options \<Rightarrow> real \<Rightarrow> real \<Rightarrow> search" where
  "find_layout opt w h =
     (let ppwid = w - o_margin opt * 2; pphgt = h - o_margin opt * 2
      in layout_loop w h ppwid pphgt (o_border opt) (o_flip opt) (o_nup opt) 1
           \<lparr>b_best = o_tolerance opt, b_scale = 1, b_hshift = 0, b_vshift = 0,
            b_horiz = 0, b_vert = 0, b_rotate = False\<rparr>)"

text \<open>psnup.c, lines 219-224 and the variables the specification loop reads.\<close>

definition layout_of :: "options \<Rightarrow> real \<Rightarrow> real \<Rightarrow> search \<Rightarrow> layout" where
  "layout_of opt ppwid pphgt b =
     \<lparr>l_nup = o_nup opt, l_horiz = b_horiz b, l_vert = b_vert b, l_rotate = b_rotate b,
      l_column = (if b_rotate b then \<not> o_column opt else o_column opt),
      l_leftright = (if b_rotate b then o_topbottom opt else o_leftright opt),
      l_topbottom = (if b_rotate b then \<not> o_leftright opt else o_topbottom opt),
      l_margin = o_margin opt, l_ppwid = ppwid, l_pphgt = pphgt,
      l_hshift = b_hshift b, l_vshift = b_vshift b,
      l_uscale = o_uscale opt, l_scale = b_scale b\<rparr>"

text \<open>\<open>main\<close> from line 158 on: the input file is open and the paper size is set.\<close>

definition psnup :: "flagdefs \<Rightarrow> (real \<Rightarrow> string) \<Rightarrow> options \<Rightarrow> pstate \<Rightarrow> error + pstate" where
  "psnup F fmt opt s =
     (let ppwid = width s - o_margin opt * 2; pphgt = height s - o_margin opt * 2
      in if ppwid \<le> 0 \<or> pphgt \<le> 0 then Inl MarginsTooLarge
         else (case scanpages 20 (Some []) s of
                 Inl e \<Rightarrow> Inl e
               | Inr (sizeheaders, s1) \<Rightarrow>
                   (let s2 = (if o_iwidth opt > 0 \<and> width s1 = - 1
                              then s1\<lparr>width := o_iwidth opt\<rparr> else s1);
                        s3 = (if o_iheight opt > 0 \<and> height s2 = - 1
                              then s2\<lparr>height := o_iheight opt\<rparr> else s2);
                        b = layout_loop (width s3) (height s3) ppwid pphgt (o_border opt)
                              (o_flip opt) (o_nup opt) 1
                              \<lparr>b_best = o_tolerance opt, b_scale = 1, b_hshift = 0, b_vshift = 0,
                               b_horiz = 0, b_vert = 0, b_rotate = False\<rparr>
                    in if b_best b = o_tolerance opt then Inl (NoLayout (o_nup opt))
                       else (let s4 = (if o_flip opt
                                       then s3\<lparr>width := height s3, height := width s3\<rparr> else s3)
                             in pstops F fmt (o_nup opt) 1 False
                                  (mkspecs F (layout_of opt ppwid pphgt b)) (o_draw opt)
                                  sizeheaders s4))))"


section \<open>Notions used in the statements\<close>

text \<open>
  \<open>room_ok n s\<close>: the output device has room for \<open>n\<close> more bytes. \<open>wrote b s\<close>: the
  state after the bytes \<open>b\<close> have been written in full and counted in \<open>bytes\<close>.
\<close>

definition room_ok :: "nat \<Rightarrow> pstate \<Rightarrow> bool" where
  "room_ok n s = (case outroom s of None \<Rightarrow> True | Some r \<Rightarrow> n \<le> r)"

definition wrote :: "char list \<Rightarrow> pstate \<Rightarrow> pstate" where
  "wrote b s =
     s\<lparr>outfile := outfile s @ b,
       outroom := map_option (\<lambda>r. r - length b) (outroom s),
       bytes := bytes s + int (length b)\<rparr>"

text \<open>\<open>slice f a b\<close>: the bytes of the file \<open>f\<close> in the range \<open>[a, b)\<close>.\<close>

definition slice :: "char list \<Rightarrow> nat \<Rightarrow> nat \<Rightarrow> char list" where
  "slice f a b = take (b - a) (drop a f)"

text \<open>
  A whole line: the bytes up to and including the first newline, or up to the end of the
  file. \<open>line_end f e\<close> is the offset after the line that begins at \<open>e\<close>.
\<close>

fun wholeline :: "char list \<Rightarrow> char list" where
  "wholeline [] = []"
| "wholeline (c # cs) = (if c = CHR 0x0A then [c] else c # wholeline cs)"

definition line_end :: "char list \<Rightarrow> nat \<Rightarrow> nat" where
  "line_end f e = e + length (wholeline (drop e f))"

text \<open>
  An ignore list is modelled by the offsets before its terminator, all of them positive.
  \<open>ignored f here up_to ign p\<close>: the byte at offset \<open>p\<close> belongs to a line that begins
  at an offset of the list lying in \<open>[here, up_to)\<close>. \<open>kept f here up_to ign\<close>: the
  bytes of \<open>[here, up_to)\<close> that are not ignored.
\<close>

definition ignored :: "char list \<Rightarrow> nat \<Rightarrow> nat \<Rightarrow> nat list \<Rightarrow> nat \<Rightarrow> bool" where
  "ignored f here up_to ign p =
     (\<exists>e \<in> set ign. here \<le> e \<and> e < up_to \<and> e \<le> p \<and> p < line_end f e)"

definition kept :: "char list \<Rightarrow> nat \<Rightarrow> nat \<Rightarrow> nat list \<Rightarrow> char list" where
  "kept f here up_to ign =
     map (\<lambda>p. f ! p) (filter (\<lambda>p. \<not> ignored f here up_to ign p) [here..<up_to])"

text \<open>The lines of the ignore list that begin before \<open>up_to\<close> fit the buffer of
  \<open>fgets\<close>.\<close>

definition lines_fit :: "char list \<Rightarrow> nat \<Rightarrow> nat list \<Rightarrow> bool" where
  "lines_fit f up_to ign = (\<forall>e \<in> set ign. e < up_to \<longrightarrow> length (wholeline (drop e f)) < BUFSIZ)"

text \<open>\<open>fcopy\<close> from the loop over the ignore list on.\<close>

definition fcopy_rest :: "nat \<Rightarrow> nat list \<Rightarrow> pstate \<Rightarrow> bool \<times> pstate" where
  "fcopy_rest up_to es s =
     (let (r, s1) = ignloop up_to es s
      in if \<not> r then (False, s1) else copyloop (up_to - inpos s1) s1)"

text \<open>
  \<open>keeps s s'\<close>: from \<open>s\<close> to \<open>s'\<close> the count of output pages is the same, the output
  has only grown at its end, and a device that takes every write still does.
\<close>

definition keeps :: "pstate \<Rightarrow> pstate \<Rightarrow> bool" where
  "keeps s s' =
     (outputpage s' = outputpage s \<and> prefix (outfile s) (outfile s') \<and>
      (outroom s = None \<longrightarrow> outroom s' = None))"

text \<open>The number of page headers one pass over a chain of specs writes: one for each spec
  reached with \<open>add_last\<close> clear.\<close>

fun headers :: "bool \<Rightarrow> flagdefs \<Rightarrow> PageSpec list \<Rightarrow> int" where
  "headers add_last F [] = 0"
| "headers add_last F (ps # rest) =
     (if add_last then 0 else 1) + headers (ps_flags ps AND ADD_NEXT F \<noteq> 0) F rest"

text \<open>The two lines \<open>writeheadermedia\<close> writes before the \<open>%%Pages:\<close> line when the
  output size is known.\<close>

definition media_lines :: "real \<Rightarrow> real \<Rightarrow> string" where
  "media_lines w h =
     (if w > - 1 \<and> h > - 1
      then ''%%DocumentMedia: plain '' @ showint (trunc_int w) @ '' '' @ showint (trunc_int h) @
           '' 0 () ()\<newline>'' @
           ''%%BoundingBox: 0 0 '' @ showint (trunc_int w) @ '' '' @ showint (trunc_int h) @
           ''\<newline>''
      else [])"


section \<open>Example inputs\<close>

text \<open>Flag values in which each flag is one bit and \<open>GSAVE\<close> is the mask
  \<open>ROTATE | HFLIP | VFLIP | SCALE | OFFSET\<close> of the flags that transform the page.\<close>

definition FM :: flagdefs where
  "FM = \<lparr>ADD_NEXT = 1, ROTATE = 2, HFLIP = 4, VFLIP = 8, SCALE = 16, OFFSET = 32, GSAVE = 62,
          REVERSED = 64\<rparr>"

definition L4 :: layout where
  "L4 = \<lparr>l_nup = 4, l_horiz = 2, l_vert = 2, l_rotate = False, l_column = False,
          l_leftright = True, l_topbottom = True, l_margin = 0, l_ppwid = 595, l_pphgt = 842,
          l_hshift = 0, l_vshift = 0, l_uscale = 0, l_scale = 1 / 2\<rparr>"

text \<open>The state of the program when it starts on an input file, with output on a device
  that takes every write, and the paper size set.\<close>

definition start :: "char list \<Rightarrow> real \<Rightarrow> real \<Rightarrow> pstate" where
  "start file w h =
     \<lparr>infile = file, inpos = 0, outfile = [], outroom = None, bytes = 0, pagescmt = 0,
      headerpos = 0, endsetup = 0, beginprocset = 0, endprocset = 0, outputpage = 0,
      pageptr = [], pages = 0, pagelabel = [], pageno = 0, width = w, height = h\<rparr>"

text \<open>The options of psnup.c with no option given but \<open>-NUP\<close>.\<close>

definition defaults :: "int \<Rightarrow> options" where
  "defaults n =
     \<lparr>o_nup = n, o_draw = 0, o_uscale = 0, o_margin = 0, o_border = 0, o_tolerance = 100000,
      o_flip = False, o_column = False, o_leftright = True, o_topbottom = True,
      o_iwidth = - 1, o_iheight = - 1\<rparr>"

definition doc4 :: "char list" where
  "doc4 =
     ''%!PS-Adobe-3.0\<newline>'' @
     ''%%Pages: 4\<newline>'' @
     ''%%EndComments\<newline>'' @
     ''%%Page: 1 1\<newline>'' @
     ''(a) show showpage\<newline>'' @
     ''%%Page: 2 2\<newline>'' @
     ''(b) show showpage\<newline>'' @
     ''%%Page: 3 3\<newline>'' @
     ''(c) show showpage\<newline>'' @
     ''%%Page: 4 4\<newline>'' @
     ''(d) show showpage\<newline>'' @
     ''%%Trailer\<newline>'' @
     ''%%EOF\<newline>''"

definition doc1 :: "char list" where
  "doc1 =
     ''%!PS-Adobe-3.0\<newline>'' @
     ''%%Pages: 1\<newline>'' @
     ''%%EndComments\<newline>'' @
     ''%%Page: 1 1\<newline>'' @
     ''(a) show showpage\<newline>'' @
     ''%%Trailer\<newline>'' @
     ''%%EOF\<newline>''"

text \<open>A stand-in for \<open>%f\<close> in the examples: the integer part of the number.\<close>

definition fmt0 :: "real \<Rightarrow> string" where
  "fmt0 x = showint (trunc_int x)"

text \<open>The state after the scan of \<open>doc4\<close>.\<close>

definition scanned4 :: pstate where
  "scanned4 =
     (start doc4 595 842)\<lparr>inpos := 160, pagescmt := 15, headerpos := 40, endsetup := 40,
       pageptr := [40, 70, 100, 130, 160], pages := 4\<rparr>"

text \<open>A file of three lines.\<close>

definition lines3 :: "char list" where
  "lines3 = ''ab\<newline>cd\<newline>ef\<newline>''"

text \<open>The state after the scan of \<open>doc1\<close>.\<close>

definition scanned1 :: pstate where
  "scanned1 =
     (start doc1 595 842)\<lparr>inpos := 70, pagescmt := 15, headerpos := 40, endsetup := 40,
       pageptr := [40, 70], pages := 1\<rparr>"

text \<open>A document without a \<open>%%Pages:\<close> comment, and the state after its scan.\<close>

definition docN :: "char list" where
  "docN =
     ''%!PS\<newline>'' @
     ''%%BoundingBox: 0 0 10 10\<newline>'' @
     ''%%EndComments\<newline>'' @
     ''%%Page: 1 1\<newline>'' @
     ''showpage\<newline>''"

definition scannedN :: pstate where
  "scannedN =
     (start docN 595 842)\<lparr>inpos := 65, headerpos := 44, endsetup := 44,
       pageptr := [44, 65], pages := 1\<rparr>"

text \<open>A state in which an earlier PStoPS procset is recorded at the offsets 2 to 5.\<close>

definition withprocset :: pstate where
  "withprocset = (start ''abcdefghij'' 595 842)\<lparr>beginprocset := 2, endprocset := 5, endsetup := 8\<rparr>"


text \<open>
  A header whose second line, at offset 5, is longer than the buffer of \<open>fgets\<close>:
  \<open>%%BoundingBox:\<close>, 8177 bytes \<open>x\<close>, then \<open>%%rest\<close> and the newline. One call of
  \<open>fgets\<close> reads its first 8191 bytes. \<open>scannedL\<close> is the state after its scan.
\<close>

definition longhdr :: "char list" where
  "longhdr = ''%!PS\<newline>'' @ (''%%BoundingBox:'' @ replicate 8177 CHR ''x'') @ ''%%rest\<newline>'' @
     ''%%EndComments\<newline>''"

definition scannedL :: pstate where
  "scannedL =
     (start longhdr 595 842)\<lparr>inpos := 8217, headerpos := 8217, endsetup := 8217,
       pageptr := [8217]\<rparr>"

section \<open>Properties of the specification list\<close>

lemma sdiv_nonneg_pos: "0 \<le> (a::int) \<Longrightarrow> 0 < b \<Longrightarrow> a sdiv b = a div b"
  by (simp add: signed_divide_int_def sgn_if)

lemma smod_nonneg_pos: "0 \<le> (a::int) \<Longrightarrow> 0 < b \<Longrightarrow> a smod b = a mod b"
  by (simp add: signed_modulo_int_def sgn_if)

lemma divmod_range:
  fixes h v :: int
  assumes "0 < v" "0 \<le> p" "p < h * v"
  shows "0 \<le> p div v \<and> p div v < h \<and> 0 \<le> p mod v \<and> p mod v < v"
proof -
  have "p div v < h"
  proof (rule ccontr)
    assume "\<not> p div v < h"
    then have "h \<le> p div v" by simp
    then have "h * v \<le> (p div v) * v" using assms(1) by (simp add: mult_right_mono)
    moreover have "p div v * v + p mod v = p" by simp
    moreover have "0 \<le> p mod v" using assms(1) by simp
    ultimately show False using assms(3) by linarith
  qed
  then show ?thesis using assms by (simp add: pos_imp_zdiv_nonneg_iff)
qed

lemma divmod_bij:
  fixes h v :: int
  assumes "0 < v"
  shows "bij_betw (\<lambda>p. (p div v, p mod v)) {0..<h * v} ({0..<h} \<times> {0..<v})"
  unfolding bij_betw_def
proof
  show "inj_on (\<lambda>p. (p div v, p mod v)) {0..<h * v}"
  proof (rule inj_onI)
    fix p q assume "(p div v, p mod v) = (q div v, q mod v)"
    then have "p div v * v + p mod v = q div v * v + q mod v" by simp
    then show "p = q" by simp
  qed
  show "(\<lambda>p. (p div v, p mod v)) ` {0..<h * v} = {0..<h} \<times> {0..<v}"
  proof (rule set_eqI, rule iffI)
    fix c assume "c \<in> (\<lambda>p. (p div v, p mod v)) ` {0..<h * v}"
    then show "c \<in> {0..<h} \<times> {0..<v}"
      using divmod_range [OF assms] by auto
  next
    fix c :: "int \<times> int" assume c: "c \<in> {0..<h} \<times> {0..<v}"
    obtain a u where cu: "c = (a, u)" by (cases c)
    with c have r: "0 \<le> a" "a < h" "0 \<le> u" "u < v" by auto
    have "a * v + u < h * v"
    proof -
      have "a + 1 \<le> h" using r by simp
      then have "(a + 1) * v \<le> h * v" using assms by (simp add: mult_right_mono)
      then show ?thesis using r by (simp add: distrib_right)
    qed
    moreover have "0 \<le> a * v + u" using r assms by simp
    moreover have "(a * v + u) div v = a" "(a * v + u) mod v = u"
      using r assms by (simp_all add: div_pos_pos_trivial)
    ultimately show "c \<in> (\<lambda>p. (p div v, p mod v)) ` {0..<h * v}"
      unfolding cu by (intro image_eqI [where x = "a * v + u"]) simp_all
  qed
qed

lemma flip_bij: "bij_betw (\<lambda>x::int. n - 1 - x) {0..<n} {0..<n}"
  by (rule bij_betw_byWitness [where f' = "\<lambda>x. n - 1 - x"]) auto


lemma prod_bij:
  assumes "bij_betw f A A'" "bij_betw g B B'"
  shows "bij_betw (\<lambda>(a, b). (f a, g b)) (A \<times> B) (A' \<times> B')"
  unfolding bij_betw_def
proof
  show "inj_on (\<lambda>(a, b). (f a, g b)) (A \<times> B)"
    using assms by (auto simp: bij_betw_def inj_on_def)
  show "(\<lambda>(a, b). (f a, g b)) ` (A \<times> B) = A' \<times> B'"
    using assms by (force simp: bij_betw_def image_def)
qed

lemma swap_bij: "bij_betw (\<lambda>(a, b). (b, a)) (A \<times> B) (B \<times> A)"
  by (rule bij_betw_byWitness [where f' = "\<lambda>(a, b). (b, a)"]) auto

lemma refl_if_bij: "bij_betw (refl_if b n) {0..<n} {0..<n}"
proof (cases b)
  case True
  then have "refl_if b n = (\<lambda>x. n - 1 - x)" by (simp add: refl_if_def fun_eq_iff)
  then show ?thesis using flip_bij by simp
next
  case False
  then have "refl_if b n = (\<lambda>x. x)" by (simp add: refl_if_def fun_eq_iff)
  then show ?thesis by (simp add: bij_betw_def)
qed

lemma cell_bij:
  assumes h: "0 < l_horiz L" and v: "0 < l_vert L" and n: "l_horiz L * l_vert L = l_nup L"
  shows "bij_betw (cell L) {0..<l_nup L} ({0..<l_horiz L} \<times> {0..<l_vert L})"
proof (cases "l_column L")
  case True
  let ?g = "\<lambda>(a, u). (refl_if (\<not> l_leftright L) (l_horiz L) a, refl_if (l_topbottom L) (l_vert L) u)"
  let ?d = "\<lambda>p. (p div l_vert L, p mod l_vert L)"
  have "bij_betw ?d {0..<l_horiz L * l_vert L} ({0..<l_horiz L} \<times> {0..<l_vert L})"
    by (rule divmod_bij [OF v])
  moreover have "bij_betw ?g ({0..<l_horiz L} \<times> {0..<l_vert L}) ({0..<l_horiz L} \<times> {0..<l_vert L})"
    by (rule prod_bij [OF refl_if_bij refl_if_bij])
  ultimately have b: "bij_betw (?g \<circ> ?d) {0..<l_horiz L * l_vert L} ({0..<l_horiz L} \<times> {0..<l_vert L})"
    by (rule bij_betw_trans)
  have e: "(?g \<circ> ?d) p = cell L p" if "p \<in> {0..<l_horiz L * l_vert L}" for p
    using that True v by (simp add: cell_def across_of_def up_of_def refl_if_def
        sdiv_nonneg_pos smod_nonneg_pos)
  have "bij_betw (cell L) {0..<l_horiz L * l_vert L} ({0..<l_horiz L} \<times> {0..<l_vert L})"
    using bij_betw_cong [THEN iffD1, OF e b] .
  then show ?thesis
    using n by simp
next
  case False
  let ?g = "\<lambda>(a, u). (refl_if (\<not> l_leftright L) (l_horiz L) a, refl_if (l_topbottom L) (l_vert L) u)"
  let ?s = "\<lambda>(a::int, b::int). (b, a)"
  let ?d = "\<lambda>p. (p div l_horiz L, p mod l_horiz L)"
  have "bij_betw ?d {0..<l_vert L * l_horiz L} ({0..<l_vert L} \<times> {0..<l_horiz L})"
    by (rule divmod_bij [OF h])
  moreover have "bij_betw ?s ({0..<l_vert L} \<times> {0..<l_horiz L}) ({0..<l_horiz L} \<times> {0..<l_vert L})"
    by (rule swap_bij)
  ultimately have "bij_betw (?s \<circ> ?d) {0..<l_vert L * l_horiz L} ({0..<l_horiz L} \<times> {0..<l_vert L})"
    by (rule bij_betw_trans)
  moreover have "bij_betw ?g ({0..<l_horiz L} \<times> {0..<l_vert L}) ({0..<l_horiz L} \<times> {0..<l_vert L})"
    by (rule prod_bij [OF refl_if_bij refl_if_bij])
  ultimately have b: "bij_betw (?g \<circ> (?s \<circ> ?d)) {0..<l_vert L * l_horiz L} ({0..<l_horiz L} \<times> {0..<l_vert L})"
    by (rule bij_betw_trans)
  have e: "(?g \<circ> (?s \<circ> ?d)) p = cell L p" if "p \<in> {0..<l_vert L * l_horiz L}" for p
    using that False h by (simp add: cell_def across_of_def up_of_def refl_if_def
        sdiv_nonneg_pos smod_nonneg_pos)
  have "bij_betw (cell L) {0..<l_vert L * l_horiz L} ({0..<l_horiz L} \<times> {0..<l_vert L})"
    using bij_betw_cong [THEN iffD1, OF e b] .
  then show ?thesis
    using n by (simp add: mult.commute)
qed

lemma specloop_length:
  "page < l_nup L \<Longrightarrow> length (specloop F L page) = nat (l_nup L - page)"
proof (induction F L page rule: specloop.induct)
  case (1 F L page)
  show ?case
  proof (cases "page + 1 < l_nup L")
    case True
    then have "length (specloop F L (page + 1)) = nat (l_nup L - (page + 1))"
      using "1.IH" "1.prems" by simp
    then show ?thesis
      using True "1.prems" by (subst specloop.simps) (simp add: Let_def nat_diff_distrib)
  next
    case False
    then show ?thesis
      using "1.prems" by (subst specloop.simps) (simp add: Let_def)
  qed
qed

lemma specloop_nth:
  "page \<le> q \<Longrightarrow> q < l_nup L \<Longrightarrow>
   specloop F L page ! nat (q - page) =
     (if q + 1 < l_nup L then addnext F (fillspec F L q newspec) else fillspec F L q newspec)"
proof (induction F L page rule: specloop.induct)
  case (1 F L page)
  show ?case
  proof (cases "q = page")
    case True
    then show ?thesis
      using "1.prems" by (subst specloop.simps) (simp add: Let_def addnext_def)
  next
    case False
    then have lt: "page + 1 \<le> q" "page + 1 < l_nup L" "page < l_nup L"
      using "1.prems" by simp_all
    have n: "nat (q - page) = Suc (nat (q - (page + 1)))"
      using lt by simp
    have "specloop F L (page + 1) ! nat (q - (page + 1)) =
      (if q + 1 < l_nup L then addnext F (fillspec F L q newspec) else fillspec F L q newspec)"
      using "1.IH" lt "1.prems" by simp
    then show ?thesis
      using lt by (subst specloop.simps) (simp add: Let_def n del: specloop.simps)
  qed
qed


lemma or_and_absorb: "(a OR b) AND b = (b::int)"
  by (auto simp: bit_eq_iff bit_and_iff bit_or_iff)

lemma and_or_distrib_int: "(a OR b) AND c = (a AND c) OR (b AND (c::int))"
  by (auto simp: bit_eq_iff bit_and_iff bit_or_iff)

lemma or_eq_0_int: "(a OR b = (0::int)) = (a = 0 \<and> b = 0)"
  by (auto simp: bit_eq_iff bit_or_iff)

lemma and_disj_parts:
  "x AND (a OR b) = (0::int) \<Longrightarrow> a AND x = 0 \<and> b AND x = 0"
  by (auto simp: bit_eq_iff bit_and_iff bit_or_iff)

lemma and_disj3:
  "x AND (a OR b OR c) = (0::int) \<Longrightarrow> a AND x = 0 \<and> b AND x = 0 \<and> c AND x = 0"
  by (auto simp: bit_eq_iff bit_and_iff bit_or_iff)

lemma and_disj4:
  "x AND (a OR b OR c OR d) = (0::int) \<Longrightarrow>
   a AND x = 0 \<and> b AND x = 0 \<and> c AND x = 0 \<and> d AND x = 0"
  by (auto simp: bit_eq_iff bit_and_iff bit_or_iff)

lemma fillspec_flags:
  "ps_flags (fillspec F L q newspec) = (if l_rotate L then ROTATE F else 0) OR SCALE F OR OFFSET F"
  by (simp add: fillspec_def newspec_def Let_def or.assoc)

lemma and_disjoint_or:
  "a AND x = (0::int) \<Longrightarrow> b AND x = 0 \<Longrightarrow> (a OR b) AND x = 0"
  by (simp add: and_or_distrib_int)

lemma mkspecs_nth:
  assumes "0 \<le> q" "q < l_nup L"
  shows "mkspecs F L ! nat q =
     (if q + 1 < l_nup L then addnext F (fillspec F L q newspec) else fillspec F L q newspec)"
  using specloop_nth [of 0 q L F] assms by (simp add: mkspecs_def)

lemma mkspecs_flags:
  assumes "0 \<le> q" "q < l_nup L"
  shows "ps_flags (mkspecs F L ! nat q) =
     ((if l_rotate L then ROTATE F else 0) OR SCALE F OR OFFSET F) OR
     (if q + 1 < l_nup L then ADD_NEXT F else 0)"
  using assms by (simp add: mkspecs_nth addnext_def fillspec_flags)

text \<open>
  Claim C5. For every \<open>nup \<ge> 1\<close> and every grid with \<open>horiz * vert = nup\<close>, whatever
  the flags \<open>column\<close>, \<open>leftright\<close> and \<open>topbottom\<close>, the specification loop
  produces exactly \<open>nup\<close> specs, and the map from the page \<open>p\<close> to its cell
  \<open>(across, up)\<close> is a bijection from \<open>{0..nup-1}\<close> onto
  \<open>{0..horiz-1} \<times> {0..vert-1}\<close>: each cell is covered exactly once. The spec at
  position \<open>p\<close> is the one of page \<open>p\<close>, and its offsets are those of the cell of
  \<open>p\<close>.
\<close>

theorem specs_cover_grid:
  assumes "1 \<le> l_nup L" and "0 < l_horiz L" and "l_horiz L * l_vert L = l_nup L"
  shows "length (mkspecs F L) = nat (l_nup L) \<and>
         bij_betw (cell L) {0..<l_nup L} ({0..<l_horiz L} \<times> {0..<l_vert L}) \<and>
         (\<forall>p. 0 \<le> p \<and> p < l_nup L \<longrightarrow>
            ps_pageno (mkspecs F L ! nat p) = p \<and>
            ps_xoff (mkspecs F L ! nat p) =
              (if l_rotate L
               then l_margin L + of_int (fst (cell L p) + 1) * l_ppwid L / of_int (l_horiz L) - l_hshift L
               else l_margin L + of_int (fst (cell L p)) * l_ppwid L / of_int (l_horiz L) + l_hshift L) \<and>
            ps_yoff (mkspecs F L ! nat p) =
              l_margin L + of_int (snd (cell L p)) * l_pphgt L / of_int (l_vert L) + l_vshift L)"
proof -
  have v: "0 < l_vert L"
    using assms by (metis zero_less_mult_pos zero_less_one_class.zero_less_one less_le_trans)
  have "length (mkspecs F L) = nat (l_nup L)"
    using specloop_length [of 0 L F] assms(1) by (simp add: mkspecs_def)
  moreover have "bij_betw (cell L) {0..<l_nup L} ({0..<l_horiz L} \<times> {0..<l_vert L})"
    by (rule cell_bij [OF assms(2) v assms(3)])
  moreover have "ps_pageno (mkspecs F L ! nat p) = p" if "0 \<le> p" "p < l_nup L" for p
    using that by (simp add: mkspecs_nth addnext_def fillspec_def Let_def)
  moreover have "ps_xoff (mkspecs F L ! nat p) =
              (if l_rotate L
               then l_margin L + of_int (fst (cell L p) + 1) * l_ppwid L / of_int (l_horiz L) - l_hshift L
               else l_margin L + of_int (fst (cell L p)) * l_ppwid L / of_int (l_horiz L) + l_hshift L)"
    if "0 \<le> p" "p < l_nup L" for p
    using that by (simp add: mkspecs_nth addnext_def fillspec_def Let_def cell_def)
  moreover have "ps_yoff (mkspecs F L ! nat p) =
              l_margin L + of_int (snd (cell L p)) * l_pphgt L / of_int (l_vert L) + l_vshift L"
    if "0 \<le> p" "p < l_nup L" for p
    using that by (simp add: mkspecs_nth addnext_def fillspec_def Let_def cell_def)
  ultimately show ?thesis by blast
qed

theorem specs_cover_grid_witness:
  "1 \<le> l_nup L4 \<and> 0 < l_horiz L4 \<and> l_horiz L4 * l_vert L4 = l_nup L4 \<and>
   length (mkspecs FM L4) = 4 \<and>
   bij_betw (cell L4) {0..<4} ({0..<2} \<times> {0..<2}) \<and>
   ps_pageno (mkspecs FM L4 ! 3) = 3 \<and> cell L4 3 = (1, 0)"
proof -
  have h: "1 \<le> l_nup L4" "0 < l_horiz L4" "l_horiz L4 * l_vert L4 = l_nup L4"
    by (simp_all add: L4_def)
  have c: "cell L4 3 = (1, 0)"
    by (simp add: cell_def across_of_def up_of_def L4_def signed_divide_int_def
        signed_modulo_int_def)
  note t = specs_cover_grid [OF h, of FM]
  have n: "nat (l_nup L4) = 4" "l_nup L4 = 4" "l_horiz L4 = 2" "l_vert L4 = 2"
    by (simp_all add: L4_def)
  have "length (mkspecs FM L4) = 4"
    using t [THEN conjunct1] n by simp
  moreover have "bij_betw (cell L4) {0..<4} ({0..<2} \<times> {0..<2})"
    using t [THEN conjunct2, THEN conjunct1] n by simp
  moreover have "ps_pageno (mkspecs FM L4 ! 3) = 3"
    using t [THEN conjunct2, THEN conjunct2, rule_format, of 3] n by simp
  ultimately show ?thesis using h c by simp
qed

text \<open>
  Claim C2. The flags of the spec of page \<open>q\<close> are \<open>SCALE | OFFSET\<close>, with
  \<open>ROTATE\<close> when the layout is rotated and \<open>ADD_NEXT\<close> when the spec is not the last
  one. So \<open>SCALE\<close> and \<open>OFFSET\<close> are set on every spec; where \<open>ADD_NEXT\<close> and
  \<open>ROTATE\<close> are non-zero and share no bit with the other flags the loop sets,
  \<open>ADD_NEXT\<close> is set exactly on the specs before the last and \<open>ROTATE\<close> exactly
  when the layout is rotated. \<open>GSAVE\<close> is tested by \<open>pstops\<close> as
  \<open>ps->flags & GSAVE\<close>: every spec passes this test as soon as \<open>GSAVE\<close> has a bit
  in common with \<open>SCALE | OFFSET\<close>, which it has when it is the mask
  \<open>ROTATE | HFLIP | VFLIP | SCALE | OFFSET\<close> of the flags that transform the page.
\<close>

theorem builder_flags:
  assumes "0 \<le> q" and "q < l_nup L"
    and "ADD_NEXT F \<noteq> 0" and "ADD_NEXT F AND (ROTATE F OR SCALE F OR OFFSET F) = 0"
    and "ROTATE F \<noteq> 0" and "ROTATE F AND (ADD_NEXT F OR SCALE F OR OFFSET F) = 0"
    and "GSAVE F AND (SCALE F OR OFFSET F) \<noteq> 0"
  shows "ps_flags (mkspecs F L ! nat q) =
           ((if l_rotate L then ROTATE F else 0) OR SCALE F OR OFFSET F) OR
           (if q + 1 < l_nup L then ADD_NEXT F else 0) \<and>
         ps_flags (mkspecs F L ! nat q) AND SCALE F = SCALE F \<and>
         ps_flags (mkspecs F L ! nat q) AND OFFSET F = OFFSET F \<and>
         ps_flags (mkspecs F L ! nat q) AND GSAVE F \<noteq> 0 \<and>
         (ps_flags (mkspecs F L ! nat q) AND ADD_NEXT F \<noteq> 0) = (q + 1 < l_nup L) \<and>
         (ps_flags (mkspecs F L ! nat q) AND ROTATE F \<noteq> 0) = l_rotate L"
proof -
  let ?fl = "ps_flags (mkspecs F L ! nat q)"
  have e: "?fl = ((if l_rotate L then ROTATE F else 0) OR SCALE F OR OFFSET F) OR
           (if q + 1 < l_nup L then ADD_NEXT F else 0)"
    by (rule mkspecs_flags [OF assms(1,2)])
  have a: "ROTATE F AND ADD_NEXT F = 0" "SCALE F AND ADD_NEXT F = 0" "OFFSET F AND ADD_NEXT F = 0"
    using and_disj3 [OF assms(4)] by simp_all
  have r: "ADD_NEXT F AND ROTATE F = 0" "SCALE F AND ROTATE F = 0" "OFFSET F AND ROTATE F = 0"
    using and_disj3 [OF assms(6)] by simp_all
  have s: "?fl AND SCALE F = SCALE F"
    unfolding e by (auto simp: bit_eq_iff bit_and_iff bit_or_iff)
  have o: "?fl AND OFFSET F = OFFSET F"
    unfolding e by (auto simp: bit_eq_iff bit_and_iff bit_or_iff)
  have n: "(?fl AND ADD_NEXT F \<noteq> 0) = (q + 1 < l_nup L)"
    unfolding e using a assms(3) by (simp add: and_or_distrib_int)
  have t: "(?fl AND ROTATE F \<noteq> 0) = l_rotate L"
    unfolding e using r assms(5) by (simp add: and_or_distrib_int)
  have g: "?fl AND GSAVE F \<noteq> 0"
  proof
    assume z: "?fl AND GSAVE F = 0"
    have "GSAVE F AND (SCALE F OR OFFSET F) = (?fl AND GSAVE F) AND (SCALE F OR OFFSET F)"
      unfolding e by (auto simp: bit_eq_iff bit_and_iff bit_or_iff)
    then show False using z assms(7) by simp
  qed
  from e s o g n t show ?thesis by blast
qed

theorem builder_flags_witness:
  "(0::int) \<le> 0 \<and> 0 < l_nup L4 \<and> ADD_NEXT FM \<noteq> 0 \<and>
   ADD_NEXT FM AND (ROTATE FM OR SCALE FM OR OFFSET FM) = 0 \<and> ROTATE FM \<noteq> 0 \<and>
   ROTATE FM AND (ADD_NEXT FM OR SCALE FM OR OFFSET FM) = 0 \<and>
   GSAVE FM = (ROTATE FM OR HFLIP FM OR VFLIP FM OR SCALE FM OR OFFSET FM) \<and>
   GSAVE FM AND (SCALE FM OR OFFSET FM) \<noteq> 0 \<and>
   ps_flags (mkspecs FM L4 ! 0) = 49 \<and>
   ps_flags (mkspecs FM L4 ! 0) AND SCALE FM = SCALE FM \<and>
   ps_flags (mkspecs FM L4 ! 0) AND OFFSET FM = OFFSET FM \<and>
   ps_flags (mkspecs FM L4 ! 0) AND GSAVE FM \<noteq> 0 \<and>
   ps_flags (mkspecs FM L4 ! 0) AND ADD_NEXT FM \<noteq> 0 \<and>
   ps_flags (mkspecs FM L4 ! 0) AND ROTATE FM = 0"
proof -
  have h: "(0::int) \<le> 0" "0 < l_nup L4" "ADD_NEXT FM \<noteq> 0"
    "ADD_NEXT FM AND (ROTATE FM OR SCALE FM OR OFFSET FM) = 0" "ROTATE FM \<noteq> 0"
    "ROTATE FM AND (ADD_NEXT FM OR SCALE FM OR OFFSET FM) = 0"
    "GSAVE FM AND (SCALE FM OR OFFSET FM) \<noteq> 0"
    by (simp_all add: L4_def FM_def)
  have m: "GSAVE FM = (ROTATE FM OR HFLIP FM OR VFLIP FM OR SCALE FM OR OFFSET FM)"
    by (simp add: FM_def)
  have v: "l_nup L4 = 4" "l_rotate L4 = False" "ROTATE FM = 2" "SCALE FM = 16" "OFFSET FM = 32"
    "ADD_NEXT FM = 1"
    by (simp_all add: L4_def FM_def)
  note t = builder_flags [OF h]
  have "ps_flags (mkspecs FM L4 ! 0) = 49"
    using t [THEN conjunct1] v by simp
  moreover have "ps_flags (mkspecs FM L4 ! 0) AND SCALE FM = SCALE FM"
    using t [THEN conjunct2, THEN conjunct1] by simp
  moreover have "ps_flags (mkspecs FM L4 ! 0) AND OFFSET FM = OFFSET FM"
    using t [THEN conjunct2, THEN conjunct2, THEN conjunct1] by simp
  moreover have "ps_flags (mkspecs FM L4 ! 0) AND GSAVE FM \<noteq> 0"
    using t [THEN conjunct2, THEN conjunct2, THEN conjunct2, THEN conjunct1] by simp
  moreover have "ps_flags (mkspecs FM L4 ! 0) AND ADD_NEXT FM \<noteq> 0"
    using t [THEN conjunct2, THEN conjunct2, THEN conjunct2, THEN conjunct2, THEN conjunct1] v
    by simp
  moreover have "ps_flags (mkspecs FM L4 ! 0) AND ROTATE FM = 0"
    using t [THEN conjunct2, THEN conjunct2, THEN conjunct2, THEN conjunct2, THEN conjunct2] v
    by simp
  ultimately show ?thesis
    using h m by blast
qed

section \<open>Reading, writing and copying\<close>

lemma getline_length: "length (getline n cs) \<le> length cs"
  by (induction n cs rule: getline.induct) auto

lemma getline_prefix: "take (length (getline n cs)) cs = getline n cs"
  by (induction n cs rule: getline.induct) auto

lemma fgets_None: "fgets s = (None, s') \<Longrightarrow> s' = s"
  by (auto simp: fgets_def Let_def split: if_splits)

lemma fgets_Some:
  assumes "fgets s = (Some l, s')"
  shows "s' = s\<lparr>inpos := inpos s + length l\<rparr>" and "l \<noteq> []"
    and "l = getline (BUFSIZ - 1) (drop (inpos s) (infile s))"
    and "inpos s + length l \<le> length (infile s)"
proof -
  show a: "s' = s\<lparr>inpos := inpos s + length l\<rparr>" and b: "l \<noteq> []"
    and c: "l = getline (BUFSIZ - 1) (drop (inpos s) (infile s))"
    using assms by (auto simp: fgets_def Let_def split: if_splits)
  have "drop (inpos s) (infile s) \<noteq> []"
    using b c by auto
  then have "inpos s < length (infile s)" by simp
  moreover have "length l \<le> length (infile s) - inpos s"
    using getline_length [of "BUFSIZ - 1" "drop (inpos s) (infile s)"] c by simp
  ultimately show "inpos s + length l \<le> length (infile s)" by simp
qed


lemma wrote_Nil [simp]: "wrote [] s = s"
  by (simp add: wrote_def option.map_ident)

lemma wrote_append: "wrote (a @ b) s = wrote b (wrote a s)"
  by (cases "outroom s") (simp_all add: wrote_def)

lemma wrote_fields [simp]:
  "infile (wrote b s) = infile s" "inpos (wrote b s) = inpos s"
  "outfile (wrote b s) = outfile s @ b" "bytes (wrote b s) = bytes s + int (length b)"
  "pageptr (wrote b s) = pageptr s" "pages (wrote b s) = pages s"
  "outputpage (wrote b s) = outputpage s" "beginprocset (wrote b s) = beginprocset s"
  "endprocset (wrote b s) = endprocset s" "endsetup (wrote b s) = endsetup s"
  "headerpos (wrote b s) = headerpos s" "pagescmt (wrote b s) = pagescmt s"
  "width (wrote b s) = width s" "height (wrote b s) = height s"
  by (simp_all add: wrote_def)

lemma room_ok_wrote: "room_ok (length a + n) s \<Longrightarrow> room_ok n (wrote a s)"
  by (auto simp: room_ok_def wrote_def split: option.splits)

lemma room_ok_mono: "room_ok n s \<Longrightarrow> m \<le> n \<Longrightarrow> room_ok m s"
  by (auto simp: room_ok_def split: option.splits)

lemma fwrite_ok: "room_ok (length b) s \<Longrightarrow>
  fwrite b s = (length b, s\<lparr>outfile := outfile s @ b,
                             outroom := map_option (\<lambda>r. r - length b) (outroom s)\<rparr>)"
  by (auto simp: fwrite_def room_ok_def split: option.splits)

lemma fwrite_short: "\<not> room_ok (length b) s \<Longrightarrow> fst (fwrite b s) < length b"
  by (auto simp: fwrite_def room_ok_def split: option.splits)

lemma writestring_ok: "room_ok (length str) s \<Longrightarrow> writestring str s = wrote str s"
  by (simp add: writestring_def fputs_def fwrite_ok wrote_def)

lemma room_ok_None [simp]: "outroom s = None \<Longrightarrow> room_ok n s"
  by (simp add: room_ok_def)

lemma outroom_wrote_None [simp]: "outroom s = None \<Longrightarrow> outroom (wrote b s) = None"
  by (simp add: wrote_def)

lemma copyloop_ok:
  "inpos s + n \<le> length (infile s) \<Longrightarrow> room_ok n s \<Longrightarrow>
   copyloop n s = (True, wrote (take n (drop (inpos s) (infile s))) (s\<lparr>inpos := inpos s + n\<rparr>))"
proof (induction n arbitrary: s rule: less_induct)
  case (less n)
  note prems = less.prems
  show ?case
  proof (cases "n > 0")
    case False
    then show ?thesis by (subst copyloop.simps) simp
  next
    case True
    define k where "k = (if n > BUFSIZ then BUFSIZ else n)"
    have k: "0 < k" "k \<le> n" using True by (auto simp: k_def BUFSIZ_def)
    define buf where "buf = take k (drop (inpos s) (infile s))"
    have lb: "length buf = k" using k prems(1) by (simp add: buf_def)
    define s1 where "s1 = s\<lparr>inpos := inpos s + k\<rparr>"
    have mk: "min (length (infile s) - inpos s) k = k" using k prems(1) by simp
    have r: "fread k s = (buf, s1)" by (simp add: fread_def buf_def s1_def Let_def mk)
    have ro: "room_ok (length buf) s1" using prems(2) k lb by (auto simp: room_ok_def s1_def split: option.splits)
    define s2 where "s2 = s1\<lparr>outfile := outfile s1 @ buf, outroom := map_option (\<lambda>r. r - length buf) (outroom s1)\<rparr>"
    have w: "fwrite buf s1 = (k, s2)" using fwrite_ok [OF ro] lb by (simp add: s2_def)
    define s3 where "s3 = s2\<lparr>bytes := bytes s2 + int k\<rparr>"
    have s3: "s3 = wrote buf s1" by (simp add: s3_def s2_def wrote_def lb)
    have step: "copyloop n s = copyloop (n - k) s3"
      using True r w lb by (subst copyloop.simps) (simp add: k_def [symmetric] Let_def s3_def)
    have p1: "inpos s3 + (n - k) \<le> length (infile s3)"
      using prems(1) k by (simp add: s3 s1_def)
    have p2: "room_ok (n - k) s3"
      unfolding s3 using prems(2) k lb by (intro room_ok_wrote) (simp add: room_ok_def s1_def)
    have ih: "copyloop (n - k) s3 =
        (True, wrote (take (n - k) (drop (inpos s3) (infile s3))) (s3\<lparr>inpos := inpos s3 + (n - k)\<rparr>))"
      using less.IH [OF _ p1 p2] k by simp
    have t: "take n (drop (inpos s) (infile s)) = buf @ take (n - k) (drop (inpos s + k) (infile s))"
      using k by (simp add: buf_def take_add [symmetric] add.commute drop_drop [symmetric] del: drop_drop)
    show ?thesis
      unfolding step ih t wrote_append
      using k by (simp add: s3 s1_def wrote_def)
  qed
qed


lemma copyloop_fail:
  "0 < n \<Longrightarrow> \<not> (inpos s + n \<le> length (infile s) \<and> room_ok n s) \<Longrightarrow> fst (copyloop n s) = False"
proof (induction n arbitrary: s rule: less_induct)
  case (less n)
  note prems = less.prems
  define k where "k = (if n > BUFSIZ then BUFSIZ else n)"
  have k: "0 < k" "k \<le> n" using prems(1) by (auto simp: k_def BUFSIZ_def)
  define buf where "buf = take k (drop (inpos s) (infile s))"
  define s1 where "s1 = s\<lparr>inpos := inpos s + length buf\<rparr>"
  have r: "fread k s = (buf, s1)" by (simp add: fread_def buf_def s1_def Let_def)
  show ?case
  proof (cases "length buf < k")
    case True
    then show ?thesis
      using prems(1) r by (subst copyloop.simps) (simp add: k_def [symmetric] Let_def)
  next
    case False
    then have lb: "length buf = k" by (simp add: buf_def)
    then have rd: "inpos s + k \<le> length (infile s)" using k by (auto simp: buf_def min_def split: if_splits)
    obtain w s2 where w: "fwrite buf s1 = (w, s2)" by (cases "fwrite buf s1")
    show ?thesis
    proof (cases "room_ok k s")
      case False
      then have "\<not> room_ok (length buf) s1" by (simp add: room_ok_def s1_def lb)
      then have "w < k" using fwrite_short [of buf s1] w lb by simp
      then show ?thesis
        using prems(1) r w lb by (subst copyloop.simps) (simp add: k_def [symmetric] Let_def)
    next
      case True
      then have ro: "room_ok (length buf) s1" by (simp add: room_ok_def s1_def lb)
      have w': "w = k" "s2 = s1\<lparr>outfile := outfile s1 @ buf,
          outroom := map_option (\<lambda>r. r - length buf) (outroom s1)\<rparr>"
        using fwrite_ok [OF ro] w lb by simp_all
      define s3 where "s3 = s2\<lparr>bytes := bytes s2 + int k\<rparr>"
      have s3: "s3 = wrote buf s1" by (simp add: s3_def w' wrote_def lb)
      have step: "copyloop n s = copyloop (n - k) s3"
        using prems(1) r w w' lb by (subst copyloop.simps) (simp add: k_def [symmetric] Let_def s3_def)
      have nk: "k < n"
      proof (rule ccontr)
        assume "\<not> k < n"
        then have "k = n" using k by simp
        then show False using prems(2) rd True by simp
      qed
      have "\<not> (inpos s3 + (n - k) \<le> length (infile s3) \<and> room_ok (n - k) s3)"
      proof
        assume a: "inpos s3 + (n - k) \<le> length (infile s3) \<and> room_ok (n - k) s3"
        then have "inpos s + n \<le> length (infile s)" using nk lb by (simp add: s3 s1_def)
        moreover have "room_ok n s"
          using a nk lb by (auto simp: s3 s1_def room_ok_def wrote_def split: option.splits)
        ultimately show False using prems(2) by simp
      qed
      then show ?thesis
        unfolding step using less.IH [of "n - k" s3] nk k by simp
    qed
  qed
qed

lemma getline_wholeline: "length (wholeline cs) \<le> n \<Longrightarrow> getline n cs = wholeline cs"
  by (induction n cs rule: getline.induct) (auto split: if_splits)

lemma wholeline_Nil_iff [simp]: "wholeline cs = [] \<longleftrightarrow> cs = []"
  by (cases cs) auto

lemma wholeline_length: "length (wholeline cs) \<le> length cs"
  by (induction cs) auto

lemma wholeline_inside:
  "i < length (wholeline cs) \<Longrightarrow> i + length (wholeline (drop i cs)) = length (wholeline cs)"
proof (induction cs arbitrary: i)
  case Nil
  then show ?case by simp
next
  case (Cons c cs)
  show ?case
  proof (cases i)
    case 0
    then show ?thesis by simp
  next
    case (Suc j)
    then show ?thesis using Cons by (auto split: if_splits)
  qed
qed

lemma line_end_le: "e \<le> length f \<Longrightarrow> line_end f e \<le> length f"
  using wholeline_length [of "drop e f"] by (simp add: line_end_def)

lemma line_end_gt: "e < length f \<Longrightarrow> e < line_end f e"
  by (simp add: line_end_def)

lemma line_end_inside:
  assumes "e \<le> x" "x < line_end f e"
  shows "line_end f x = line_end f e"
proof -
  have "x - e < length (wholeline (drop e f))"
    using assms by (simp add: line_end_def)
  from wholeline_inside [OF this] show ?thesis
    using assms by (simp add: line_end_def add.commute)
qed

lemma fgets_line:
  assumes "e < length (infile s)" "inpos s = e" "length (wholeline (drop e (infile s))) < BUFSIZ"
  shows "fgets s = (Some (wholeline (drop e (infile s))), s\<lparr>inpos := line_end (infile s) e\<rparr>)"
proof -
  have "getline (BUFSIZ - 1) (drop e (infile s)) = wholeline (drop e (infile s))"
    using assms(3) by (intro getline_wholeline) simp
  then show ?thesis
    using assms by (simp add: fgets_def Let_def line_end_def)
qed

lemma fgets_eof: "length (infile s) \<le> inpos s \<Longrightarrow> fgets s = (None, s)"
  by (simp add: fgets_def)

lemma skip_ign_dropWhile: "\<forall>e \<in> set es. 0 < e \<Longrightarrow> skip_ign h es = dropWhile (\<lambda>e. e < h) es"
  by (induction es) auto

lemma sorted_dropWhile_less:
  "sorted es \<Longrightarrow> set (dropWhile (\<lambda>e. e < (h::nat)) es) = {e \<in> set es. h \<le> e}"
proof (induction es)
  case Nil
  then show ?case by simp
next
  case (Cons a es)
  then show ?case by (auto simp: not_less)
qed


lemma map_nth_slice: "b \<le> length f \<Longrightarrow> map ((!) f) [a..<b] = slice f a b"
  by (rule nth_equalityI) (auto simp: slice_def)

lemma length_slice: "b \<le> length f \<Longrightarrow> length (slice f a b) = b - a"
  by (auto simp: slice_def)

lemma kept_empty_range [simp]: "up_to \<le> here \<Longrightarrow> kept f here up_to es = []"
  by (simp add: kept_def)

lemma kept_none:
  assumes "\<forall>e \<in> set es. up_to \<le> e" "up_to \<le> length f"
  shows "kept f here up_to es = slice f here up_to"
proof -
  have "\<not> ignored f here up_to es p" for p
    using assms(1) by (auto simp: ignored_def)
  then show ?thesis
    using assms(2) by (simp add: kept_def map_nth_slice)
qed

lemma kept_step:
  assumes "here \<le> e" "e < up_to" "up_to \<le> length f" "sorted (e # es)"
  shows "kept f here up_to (e # es) =
         slice f here e @ kept f (line_end f e) up_to (dropWhile (\<lambda>x. x < line_end f e) es)"
proof -
  let ?L = "line_end f e"
  let ?es = "dropWhile (\<lambda>x. x < ?L) es"
  let ?P = "\<lambda>p. \<not> ignored f here up_to (e # es) p"
  have ge: "\<forall>x \<in> set es. e \<le> x" using assms(4) by simp
  have srt: "sorted es" using assms(4) by simp
  have L: "e < ?L" using assms by (intro line_end_gt) simp
  have a: "filter ?P [here..<e] = [here..<e]"
  proof -
    have "?P p" if "p < e" for p
      using that ge by (auto simp: ignored_def)
    then show ?thesis by (simp add: filter_id_conv)
  qed
  have b: "filter ?P [e..<min ?L up_to] = []"
  proof -
    have "\<not> ?P p" if "e \<le> p" "p < min ?L up_to" for p
      using that assms(1,2) by (auto simp: ignored_def)
    then show ?thesis by (simp add: filter_empty_conv)
  qed
  have c: "filter ?P [min ?L up_to..<up_to] = filter (\<lambda>p. \<not> ignored f ?L up_to ?es p) [?L..<up_to]"
  proof (cases "?L < up_to")
    case False
    then show ?thesis by simp
  next
    case True
    have "ignored f here up_to (e # es) p = ignored f ?L up_to ?es p" if p: "?L \<le> p" "p < up_to" for p
    proof
      assume "ignored f here up_to (e # es) p"
      then obtain x where x: "x \<in> set (e # es)" "here \<le> x" "x < up_to" "x \<le> p" "p < line_end f x"
        by (auto simp: ignored_def)
      have "x \<noteq> e" using x(5) p(1) by auto
      then have xe: "x \<in> set es" "e \<le> x" using x(1) ge by auto
      have "?L \<le> x"
      proof (rule ccontr)
        assume "\<not> ?L \<le> x"
        then have "line_end f x = ?L" using xe(2) by (intro line_end_inside) simp_all
        then show False using x(5) p(1) by simp
      qed
      then have "x \<in> set ?es" using xe(1) srt by (simp add: sorted_dropWhile_less)
      then show "ignored f ?L up_to ?es p"
        using x \<open>?L \<le> x\<close> by (auto simp: ignored_def)
    next
      assume "ignored f ?L up_to ?es p"
      then obtain x where x: "x \<in> set ?es" "?L \<le> x" "x < up_to" "x \<le> p" "p < line_end f x"
        by (auto simp: ignored_def)
      have "x \<in> set es" using x(1) by (meson set_dropWhileD)
      moreover have "here \<le> x" using x(2) L assms(1) by simp
      ultimately show "ignored f here up_to (e # es) p"
        using x by (auto simp: ignored_def)
    qed
    then have "filter ?P [?L..<up_to] = filter (\<lambda>p. \<not> ignored f ?L up_to ?es p) [?L..<up_to]"
      by (intro filter_cong) auto
    then show ?thesis using True by (simp add: min_def)
  qed
  have split: "[here..<up_to] = [here..<e] @ [e..<min ?L up_to] @ [min ?L up_to..<up_to]"
  proof -
    have "[here..<up_to] = [here..<e] @ [e..<up_to]"
      using assms(1,2) by (metis le_Suc_ex less_imp_le_nat upt_add_eq_append)
    moreover have "[e..<up_to] = [e..<min ?L up_to] @ [min ?L up_to..<up_to]"
      using L assms(2) by (metis le_Suc_ex less_imp_le_nat min.cobounded2 min_less_iff_conj upt_add_eq_append)
    ultimately show ?thesis by simp
  qed
  have "kept f here up_to (e # es) = map ((!) f) [here..<e] @ kept f ?L up_to ?es"
    unfolding kept_def split by (simp only: filter_append map_append a b c) simp
  then show ?thesis
    using assms by (simp add: map_nth_slice)
qed


lemma wrote_inpos: "(wrote b s)\<lparr>inpos := p\<rparr> = wrote b (s\<lparr>inpos := p\<rparr>)"
  by (simp add: wrote_def)

lemma room_ok_length_0 [simp]: "room_ok 0 s"
  by (simp add: room_ok_def split: option.splits)

lemma room_ok_wrote_iff:
  "room_ok (length a) s \<Longrightarrow> room_ok n (wrote a s) = room_ok (length a + n) s"
  by (auto simp: room_ok_def wrote_def split: option.splits)

lemma room_ok_inpos [simp]: "room_ok n (s\<lparr>inpos := p\<rparr>) = room_ok n s"
  by (simp add: room_ok_def)

text \<open>The copy of the tail, when no offset of the list is left before \<open>up_to\<close>.\<close>

lemma fcopy_tail:
  assumes "up_to \<le> length (infile s)"
  shows "if room_ok (length (slice (infile s) (inpos s) up_to)) s
         then copyloop (up_to - inpos s) s =
                (True, wrote (slice (infile s) (inpos s) up_to) (s\<lparr>inpos := max (inpos s) up_to\<rparr>))
         else fst (copyloop (up_to - inpos s) s) = False"
proof (cases "inpos s < up_to")
  case False
  then have "up_to - inpos s = 0" "slice (infile s) (inpos s) up_to = []"
    by (simp_all add: slice_def)
  moreover have "max (inpos s) up_to = inpos s" using False by simp
  ultimately show ?thesis
    by (subst copyloop.simps) simp
next
  case True
  have l: "length (slice (infile s) (inpos s) up_to) = up_to - inpos s"
    using assms by (simp add: length_slice)
  have m: "inpos s + (up_to - inpos s) = up_to" "max (inpos s) up_to = up_to"
    using True by simp_all
  show ?thesis
  proof (cases "room_ok (up_to - inpos s) s")
    case ok: True
    have "inpos s + (up_to - inpos s) \<le> length (infile s)" using assms m by simp
    from copyloop_ok [OF this ok] show ?thesis
      using ok l m by (simp add: slice_def)
  next
    case no: False
    have "fst (copyloop (up_to - inpos s) s) = False"
      using True no by (intro copyloop_fail) simp_all
    then show ?thesis using no l by simp
  qed
qed

lemma fcopy_rest_spec:
  assumes "sorted es" "\<forall>e \<in> set es. 0 < e \<and> inpos s \<le> e" "up_to \<le> length (infile s)"
    "lines_fit (infile s) up_to es"
  shows "if room_ok (length (kept (infile s) (inpos s) up_to es)) s
         then \<exists>P. fcopy_rest up_to es s =
                     (True, wrote (kept (infile s) (inpos s) up_to es) (s\<lparr>inpos := P\<rparr>)) \<and>
                   up_to \<le> P \<and> inpos s \<le> P
         else fst (fcopy_rest up_to es s) = False"
  using assms
proof (induction es arbitrary: s rule: length_induct)
  case (1 es)
  note prems = "1.prems"
  let ?f = "infile s" and ?h = "inpos s"
  have none: ?case if n: "\<forall>e \<in> set es. up_to \<le> e"
  proof -
    have ig: "ignloop up_to es s = (True, s)"
    proof (cases es)
      case Nil
      then show ?thesis by (simp add: ignloop.simps)
    next
      case (Cons e es')
      then have "\<not> e < up_to" using n by auto
      then show ?thesis using Cons by (simp add: ignloop.simps)
    qed
    have k: "kept ?f ?h up_to es = slice ?f ?h up_to"
      using n prems(3) by (rule kept_none)
    have r: "fcopy_rest up_to es s = copyloop (up_to - inpos s) s"
      by (simp add: fcopy_rest_def ig)
    show ?thesis
      using fcopy_tail [OF prems(3)] unfolding k r
      by (auto split: if_splits)
  qed
  show ?case
  proof (cases es)
    case Nil
    then show ?thesis using none by simp
  next
    case (Cons e es')
    show ?thesis
    proof (cases "e < up_to")
      case False
      have "\<forall>x \<in> set es. up_to \<le> x"
        using prems(1) False Cons by auto
      then show ?thesis by (rule none)
    next
      case True
      have e: "0 < e" "?h \<le> e" "e < length ?f" using prems(2,3) True Cons by auto
      let ?L = "line_end ?f e"
      let ?es = "dropWhile (\<lambda>x. x < ?L) es'"
      let ?sl = "slice ?f ?h e"
      have pos': "\<forall>x \<in> set es'. 0 < x" using prems(2) Cons by simp
      have ks: "kept ?f ?h up_to es = ?sl @ kept ?f ?L up_to ?es"
        unfolding Cons using e(2) True prems(3) prems(1) [unfolded Cons] by (rule kept_step)
      have lsl: "length ?sl = e - ?h" using e by (simp add: length_slice)
      show ?thesis
      proof (cases "room_ok (e - ?h) s")
        case False
        then have "0 < e - ?h" by (cases "e - ?h") auto
        then have "fst (copyloop (e - ?h) s) = False"
          using False by (intro copyloop_fail) simp_all
        then have "fst (fcopy_rest up_to es s) = False"
          unfolding Cons
          by (cases "copyloop (e - ?h) s")
             (simp add: fcopy_rest_def ignloop.simps e True fcopy_null_def)
        moreover have "\<not> room_ok (length (kept ?f ?h up_to es)) s"
          using False room_ok_mono [of "length (kept ?f ?h up_to es)" s "e - ?h"]
          by (auto simp: ks lsl)
        ultimately show ?thesis by simp
      next
        case ok: True
        define s1 where "s1 = wrote ?sl (s\<lparr>inpos := e\<rparr>)"
        have c: "fcopy_null e s = (True, s1)"
        proof -
          have "?h + (e - ?h) \<le> length ?f" using e by simp
          from copyloop_ok [OF this ok] show ?thesis
            using e by (simp add: fcopy_null_def s1_def slice_def)
        qed
        define s2 where "s2 = wrote ?sl (s\<lparr>inpos := ?L\<rparr>)"
        have fit: "length (wholeline (drop e ?f)) < BUFSIZ"
          using prems(4) True Cons by (simp add: lines_fit_def)
        have g: "fgets s1 = (Some (wholeline (drop e ?f)), s2)"
          using fgets_line [of e s1] e fit by (simp add: s1_def s2_def wrote_inpos)
        have sk: "skip_ign (inpos s2) es' = ?es"
          using pos' by (simp add: skip_ign_dropWhile s2_def)
        have ig: "ignloop up_to es s = ignloop up_to ?es s2"
          unfolding Cons using e True c g sk by (simp add: ignloop.simps)
        have r: "fcopy_rest up_to es s = fcopy_rest up_to ?es s2"
          by (simp add: fcopy_rest_def ig)
        have len: "length ?es < length es"
          unfolding Cons using length_dropWhile_le [of "\<lambda>x. x < ?L" es'] by simp
        have srt: "sorted ?es" using prems(1) Cons by (simp add: sorted_dropWhile)
        have ge: "\<forall>x \<in> set ?es. 0 < x \<and> inpos s2 \<le> x"
        proof
          fix x assume x: "x \<in> set ?es"
          have "sorted es'" using prems(1) Cons by simp
          then have "x \<in> set es'" "?L \<le> x" using x by (simp_all add: sorted_dropWhile_less)
          then show "0 < x \<and> inpos s2 \<le> x" using pos' by (simp add: s2_def)
        qed
        have fit': "lines_fit (infile s2) up_to ?es"
          using prems(4) Cons by (auto simp: lines_fit_def s2_def dest: set_dropWhileD)
        have up: "up_to \<le> length (infile s2)" using prems(3) by (simp add: s2_def)
        have ih: "if room_ok (length (kept (infile s2) (inpos s2) up_to ?es)) s2
           then \<exists>P. fcopy_rest up_to ?es s2 =
                     (True, wrote (kept (infile s2) (inpos s2) up_to ?es) (s2\<lparr>inpos := P\<rparr>)) \<and>
                   up_to \<le> P \<and> inpos s2 \<le> P
           else fst (fcopy_rest up_to ?es s2) = False"
          using "1.IH" len srt ge up fit' by blast
        have i2: "infile s2 = ?f" "inpos s2 = ?L" by (simp_all add: s2_def)
        have rm: "room_ok (length (kept ?f ?L up_to ?es)) s2 =
            room_ok (length (kept ?f ?h up_to es)) s"
          using ok by (simp add: s2_def room_ok_wrote_iff lsl ks)
        have hl: "?h \<le> ?L" using e line_end_gt [of e ?f] by simp
        show ?thesis
        proof (cases "room_ok (length (kept ?f ?h up_to es)) s")
          case False
          then show ?thesis using ih rm r i2 by simp
        next
          case True
          then obtain P where P: "fcopy_rest up_to ?es s2 =
              (True, wrote (kept ?f ?L up_to ?es) (s2\<lparr>inpos := P\<rparr>))" "up_to \<le> P" "?L \<le> P"
            using ih rm i2 by auto
          have "wrote (kept ?f ?L up_to ?es) (s2\<lparr>inpos := P\<rparr>) =
              wrote (kept ?f ?h up_to es) (s\<lparr>inpos := P\<rparr>)"
            by (simp add: s2_def ks wrote_append wrote_inpos)
          then show ?thesis
            using True P r hl by auto
        qed
      qed
    qed
  qed
qed


lemma fcopy_rest_none:
  assumes "\<forall>e \<in> set es. up_to \<le> e"
  shows "fcopy_rest up_to es s = copyloop (up_to - inpos s) s"
proof -
  have "ignloop up_to es s = (True, s)"
  proof (cases es)
    case Nil
    then show ?thesis by (simp add: ignloop.simps)
  next
    case (Cons e es')
    then have "\<not> e < up_to" using assms by auto
    then show ?thesis using Cons by (simp add: ignloop.simps)
  qed
  then show ?thesis by (simp add: fcopy_rest_def)
qed

text \<open>A range that reaches beyond the end of the file: some read falls short.\<close>

lemma fcopy_rest_short_read:
  assumes "sorted es" "\<forall>e \<in> set es. 0 < e \<and> inpos s \<le> e" "length (infile s) < up_to"
    "inpos s < up_to"
  shows "fst (fcopy_rest up_to es s) = False"
  using assms
proof (induction es arbitrary: s rule: length_induct)
  case (1 es)
  note prems = "1.prems"
  have none: ?case if n: "\<forall>e \<in> set es. up_to \<le> e"
  proof -
    have "fst (copyloop (up_to - inpos s) s) = False"
      using prems(3,4) by (intro copyloop_fail) simp_all
    then show ?thesis by (simp add: fcopy_rest_none [OF n])
  qed
  show ?case
  proof (cases es)
    case Nil
    then show ?thesis using none by simp
  next
    case (Cons e es')
    show ?thesis
    proof (cases "e < up_to")
      case False
      have "\<forall>x \<in> set es. up_to \<le> x" using prems(1) False Cons by auto
      then show ?thesis by (rule none)
    next
      case True
      have e: "0 < e" "inpos s \<le> e" using prems(2) Cons by auto
      have pos': "\<forall>x \<in> set es'. 0 < x" using prems(2) Cons by simp
      obtain r s1 where c: "copyloop (e - inpos s) s = (r, s1)"
        by (cases "copyloop (e - inpos s) s")
      show ?thesis
      proof (cases r)
        case False
        then show ?thesis
          unfolding Cons using c e True by (simp add: fcopy_rest_def ignloop.simps fcopy_null_def)
      next
        case r: True
        have s1: "infile s1 = infile s \<and> inpos s1 = e"
        proof (cases "inpos s + (e - inpos s) \<le> length (infile s) \<and> room_ok (e - inpos s) s")
          case True
          then show ?thesis using copyloop_ok [of s "e - inpos s"] c e by auto
        next
          case False
          show ?thesis
          proof (cases "e - inpos s")
            case 0
            then have "copyloop (e - inpos s) s = (True, s)" by (subst copyloop.simps) simp
            then show ?thesis using c e 0 by simp
          next
            case (Suc m)
            then have "fst (copyloop (e - inpos s) s) = False"
              using False by (intro copyloop_fail) simp_all
            then show ?thesis using c r by simp
          qed
        qed
        obtain x s2 where g: "fgets s1 = (x, s2)" by (cases "fgets s1")
        show ?thesis
        proof (cases x)
          case None
          then show ?thesis
            unfolding Cons using c r g e True
            by (simp add: fcopy_rest_def ignloop.simps fcopy_null_def)
        next
          case (Some l)
          have s2: "s2 = s1\<lparr>inpos := inpos s1 + length l\<rparr>" "l \<noteq> []"
            "inpos s1 + length l \<le> length (infile s1)"
            using fgets_Some [of s1 l s2] g Some by simp_all
          let ?es = "skip_ign (inpos s2) es'"
          have r': "fcopy_rest up_to es s = fcopy_rest up_to ?es s2"
            unfolding Cons using c r g Some e True
            by (simp add: fcopy_rest_def ignloop.simps fcopy_null_def)
          have sk: "?es = dropWhile (\<lambda>x. x < inpos s2) es'"
            using pos' by (simp add: skip_ign_dropWhile)
          have len: "length ?es < length es"
            unfolding Cons sk using length_dropWhile_le [of "\<lambda>x. x < inpos s2" es'] by simp
          have srt: "sorted ?es" using prems(1) Cons by (simp add: sk sorted_dropWhile)
          have ge: "\<forall>x \<in> set ?es. 0 < x \<and> inpos s2 \<le> x"
          proof
            fix x assume x: "x \<in> set ?es"
            have "sorted es'" using prems(1) Cons by simp
            then have "x \<in> set es'" "inpos s2 \<le> x"
              using x by (simp_all add: sk sorted_dropWhile_less)
            then show "0 < x \<and> inpos s2 \<le> x" using pos' by simp
          qed
          have "length (infile s2) < up_to" "inpos s2 < up_to"
            using s2 s1 prems(3) by simp_all
          then have "fst (fcopy_rest up_to ?es s2) = False"
            using "1.IH" len srt ge by blast
          then show ?thesis by (simp add: r')
        qed
      qed
    qed
  qed
qed

lemma ignored_skip:
  assumes "sorted ign"
  shows "ignored f here up_to (dropWhile (\<lambda>e. e < here) ign) p = ignored f here up_to ign p"
  using assms by (auto simp: ignored_def sorted_dropWhile_less)

lemma kept_skip:
  "sorted ign \<Longrightarrow> kept f here up_to (dropWhile (\<lambda>e. e < here) ign) = kept f here up_to ign"
  by (simp add: kept_def ignored_skip)

lemma fcopy_Some_rest: "fcopy up_to (Some ign) s = fcopy_rest up_to (skip_ign (inpos s) ign) s"
  by (simp add: fcopy_def fcopy_rest_def)

lemma fcopy_None_Some: "fcopy up_to None s = fcopy up_to (Some []) s"
  by (simp add: fcopy_def fcopy_null_def ignloop.simps)

text \<open>The full description of \<open>fcopy\<close> with an ignore list.\<close>

lemma fcopy_spec:
  assumes "inpos s \<le> up_to" "sorted ign" "\<forall>e \<in> set ign. 0 < e" "lines_fit (infile s) up_to ign"
  shows "if (up_to \<le> length (infile s) \<or> inpos s = up_to) \<and>
            room_ok (length (kept (infile s) (inpos s) up_to ign)) s
         then \<exists>P. fcopy up_to (Some ign) s =
                     (True, wrote (kept (infile s) (inpos s) up_to ign) (s\<lparr>inpos := P\<rparr>)) \<and>
                   up_to \<le> P
         else fst (fcopy up_to (Some ign) s) = False"
proof -
  let ?es = "dropWhile (\<lambda>e. e < inpos s) ign"
  have sk: "skip_ign (inpos s) ign = ?es" using assms(3) by (simp add: skip_ign_dropWhile)
  have srt: "sorted ?es" using assms(2) by (simp add: sorted_dropWhile)
  have ge: "\<forall>e \<in> set ?es. 0 < e \<and> inpos s \<le> e"
    using assms(2,3) by (auto simp: sorted_dropWhile_less)
  have fit: "lines_fit (infile s) up_to ?es"
    using assms(4) by (auto simp: lines_fit_def dest: set_dropWhileD)
  have k: "kept (infile s) (inpos s) up_to ?es = kept (infile s) (inpos s) up_to ign"
    using assms(2) by (rule kept_skip)
  have r: "fcopy up_to (Some ign) s = fcopy_rest up_to ?es s"
    by (simp add: fcopy_Some_rest sk)
  show ?thesis
  proof (cases "up_to \<le> length (infile s)")
    case True
    from fcopy_rest_spec [OF srt ge True fit] show ?thesis
      unfolding k r using True by (auto split: if_splits)
  next
    case False
    show ?thesis
    proof (cases "inpos s = up_to")
      case True
      have "\<forall>e \<in> set ?es. up_to \<le> e" using ge True by simp
      then have "fcopy_rest up_to ?es s = copyloop 0 s"
        using fcopy_rest_none [of ?es up_to s] True by simp
      then have "fcopy up_to (Some ign) s = (True, s)"
        unfolding r by (subst (asm) copyloop.simps) simp
      moreover have "kept (infile s) (inpos s) up_to ign = []" using True by simp
      ultimately show ?thesis using True by (auto intro: exI [of _ up_to])
    next
      case ne: False
      have "fst (fcopy_rest up_to ?es s) = False"
        using srt ge False ne assms(1) by (intro fcopy_rest_short_read) simp_all
      then show ?thesis using False ne r by simp
    qed
  qed
qed

text \<open>Lines that do not fit the buffer of \<open>fgets\<close>.\<close>

lemma getline_0 [simp]: "getline 0 cs = []"
  by (cases cs) simp_all

lemma getline_replicate: "c \<noteq> CHR 0x0A \<Longrightarrow> getline n (replicate n c @ cs) = replicate n c"
  by (induction n) simp_all

lemma getline_append:
  "CHR 0x0A \<notin> set a \<Longrightarrow> length a \<le> n \<Longrightarrow> getline n (a @ b) = a @ getline (n - length a) b"
  by (induction a arbitrary: n) auto

lemma wholeline_append: "CHR 0x0A \<notin> set a \<Longrightarrow> wholeline (a @ b) = a @ wholeline b"
  by (induction a) auto

lemma longhdr_length: "length longhdr = 8217"
  by (simp add: longhdr_def)

lemma longhdr_parts:
  "take 5 longhdr = ''%!PS\<newline>''"
  "drop 5 longhdr = (''%%BoundingBox:'' @ replicate 8177 CHR ''x'') @ ''%%rest\<newline>%%EndComments\<newline>''"
  "drop 8196 longhdr = ''%%rest\<newline>%%EndComments\<newline>''"
  "drop 8203 longhdr = ''%%EndComments\<newline>''"
  by (simp_all add: longhdr_def)

lemma longhdr_chunk:
  "getline 8191 (drop 5 longhdr) = ''%%BoundingBox:'' @ replicate 8177 CHR ''x''"
  unfolding longhdr_parts
  by (subst getline_append) simp_all

lemma longhdr_line:
  "wholeline (drop 5 longhdr) = (''%%BoundingBox:'' @ replicate 8177 CHR ''x'') @ ''%%rest\<newline>''"
  unfolding longhdr_parts
  by (subst wholeline_append) simp_all

text \<open>The run of \<open>fcopy\<close> over \<open>longhdr\<close> with the ignore list \<open>[5]\<close>: of the line at
  offset 5 only the 8191 bytes that \<open>fgets\<close> reads are left out.\<close>

lemma fcopy_longhdr:
  assumes "infile t = longhdr" "inpos t = 0" "outroom t = None"
  shows "fcopy 8217 (Some [5]) t =
     (True, wrote ''%!PS\<newline>%%rest\<newline>%%EndComments\<newline>'' (t\<lparr>inpos := 8217\<rparr>))"
proof -
  note i = assms
  let ?s1 = "wrote ''%!PS\<newline>'' (t\<lparr>inpos := 5\<rparr>)"
  have "copyloop 5 t =
      (True, wrote (take 5 (drop (inpos t) (infile t))) (t\<lparr>inpos := inpos t + 5\<rparr>))"
    by (rule copyloop_ok) (simp_all add: i longhdr_length)
  then have 1: "fcopy_null 5 t = (True, ?s1)"
    by (simp add: fcopy_null_def i longhdr_parts)
  let ?s2 = "?s1\<lparr>inpos := 8196\<rparr>"
  have 2: "fgets ?s1 = (Some (''%%BoundingBox:'' @ replicate 8177 CHR ''x''), ?s2)"
    by (simp add: fgets_def i BUFSIZ_def longhdr_chunk)
  have 3: "ignloop 8217 [5] t = (True, ?s2)"
    by (simp add: ignloop.simps 1 2)
  have "copyloop 21 ?s2 =
      (True, wrote (take 21 (drop (inpos ?s2) (infile ?s2))) (?s2\<lparr>inpos := inpos ?s2 + 21\<rparr>))"
    by (rule copyloop_ok) (simp_all add: i longhdr_length)
  then have 4: "copyloop 21 ?s2 =
      (True, wrote ''%%rest\<newline>%%EndComments\<newline>'' (?s2\<lparr>inpos := 8217\<rparr>))"
    by (simp add: i longhdr_parts)
  have "fcopy 8217 (Some [5]) t =
      (True, wrote ''%%rest\<newline>%%EndComments\<newline>'' (?s2\<lparr>inpos := 8217\<rparr>))"
    by (simp add: fcopy_def i 3 4)
  also have "wrote ''%%rest\<newline>%%EndComments\<newline>'' (?s2\<lparr>inpos := 8217\<rparr>) =
      wrote ''%!PS\<newline>%%rest\<newline>%%EndComments\<newline>'' (t\<lparr>inpos := 8217\<rparr>)"
    by (simp add: wrote_inpos wrote_append [symmetric])
  finally show ?thesis .
qed

text \<open>The bytes of \<open>longhdr\<close> outside the whole line that begins at offset 5.\<close>

lemma kept_longhdr: "kept longhdr 0 8217 [5] = ''%!PS\<newline>%%EndComments\<newline>''"
proof -
  have l: "line_end longhdr 5 = 8203"
    by (simp add: line_end_def longhdr_line)
  have "kept longhdr 0 8217 [5] =
      slice longhdr 0 5 @ kept longhdr (line_end longhdr 5) 8217 (dropWhile (\<lambda>x. x < line_end longhdr 5) [])"
    by (rule kept_step) (simp_all add: longhdr_length)
  also have "\<dots> = slice longhdr 0 5 @ slice longhdr 8203 8217"
    by (simp add: l kept_none longhdr_length)
  finally show ?thesis
    by (simp add: slice_def longhdr_parts)
qed

text \<open>
  Claim C9, as amended. \<open>fcopy(upto, ignorelist)\<close>, started at an input position
  \<open>here \<le> upto\<close> with an ignore list sorted ascending (the positive offsets before its
  terminator), where every line that begins at an offset of the list before \<open>upto\<close> is
  shorter than \<open>BUFSIZ\<close> bytes, so that one call of \<open>fgets\<close> reads it whole: it returns
  success exactly when no read and no write falls short, that is when the range
  \<open>[here, upto)\<close> lies within the file (or is empty) and the output device has room for
  the bytes to write; and on success it has appended to the output exactly the bytes of
  \<open>[here, upto)\<close> that belong to no line beginning at an offset of the list in
  \<open>[here, upto)\<close>, has added their number to \<open>bytes\<close>, and has left the input at or
  after \<open>upto\<close>.
\<close>

theorem fcopy_copies_range:
  assumes "inpos s \<le> up_to" and "sorted ign" and "\<forall>e \<in> set ign. 0 < e"
    and "lines_fit (infile s) up_to ign"
  shows "fst (fcopy up_to (Some ign) s) =
           ((up_to \<le> length (infile s) \<or> inpos s = up_to) \<and>
            room_ok (length (kept (infile s) (inpos s) up_to ign)) s) \<and>
         (fst (fcopy up_to (Some ign) s) \<longrightarrow>
            outfile (snd (fcopy up_to (Some ign) s)) =
              outfile s @ kept (infile s) (inpos s) up_to ign \<and>
            bytes (snd (fcopy up_to (Some ign) s)) =
              bytes s + int (length (kept (infile s) (inpos s) up_to ign)) \<and>
            up_to \<le> inpos (snd (fcopy up_to (Some ign) s)))"
proof (cases "(up_to \<le> length (infile s) \<or> inpos s = up_to) \<and>
            room_ok (length (kept (infile s) (inpos s) up_to ign)) s")
  case True
  then obtain P where "fcopy up_to (Some ign) s =
      (True, wrote (kept (infile s) (inpos s) up_to ign) (s\<lparr>inpos := P\<rparr>))" "up_to \<le> P"
    using fcopy_spec [OF assms] by auto
  then show ?thesis using True by simp
next
  case False
  then have "fst (fcopy up_to (Some ign) s) = False"
    using fcopy_spec [OF assms] by simp
  then show ?thesis using False by simp
qed

theorem fcopy_copies_range_witness:
  "fst (fcopy 9 (Some [3]) (start lines3 1 1)) \<and>
   outfile (snd (fcopy 9 (Some [3]) (start lines3 1 1))) = ''ab\<newline>ef\<newline>'' \<and>
   bytes (snd (fcopy 9 (Some [3]) (start lines3 1 1))) = 6 \<and>
   \<not> fst (fcopy 10 (Some [3]) (start lines3 1 1))"
proof -
  let ?s = "start lines3 1 1"
  have i: "inpos ?s = 0" "infile ?s = lines3" "outfile ?s = []" "bytes ?s = 0" "outroom ?s = None"
    by (simp_all add: start_def)
  have h: "inpos ?s \<le> 9" "inpos ?s \<le> 10" "sorted [3::nat]" "\<forall>e \<in> set [3::nat]. 0 < e"
    by (simp_all add: i)
  have f: "lines_fit (infile ?s) 9 [3]" "lines_fit (infile ?s) 10 [3]"
    by (simp_all add: lines_fit_def start_def lines3_def BUFSIZ_def)
  have k: "kept lines3 0 9 [3] = ''ab\<newline>ef\<newline>''"
    by (simp add: kept_def ignored_def line_end_def lines3_def upt_rec)
  have l: "length lines3 = 9"
    by (simp add: lines3_def)
  note t = fcopy_copies_range [OF h(1) h(3) h(4) f(1)]
  note u = fcopy_copies_range [OF h(2) h(3) h(4) f(2)]
  have a: "fst (fcopy 9 (Some [3]) ?s)"
    using t [THEN conjunct1] by (simp add: i l)
  have "outfile (snd (fcopy 9 (Some [3]) ?s)) = ''ab\<newline>ef\<newline>''"
    "bytes (snd (fcopy 9 (Some [3]) ?s)) = 6"
    using t [THEN conjunct2] a by (simp_all add: i k)
  moreover have "\<not> fst (fcopy 10 (Some [3]) ?s)"
    using u [THEN conjunct1] by (simp add: i l)
  ultimately show ?thesis
    using a by simp
qed

text \<open>
  The claim as stated, for every ignore list, fails on a line that does not fit the buffer:
  \<open>fcopy\<close> skips what one call of \<open>fgets\<close> reads, the first \<open>BUFSIZ - 1\<close> bytes of
  the line, and copies the rest of the line to the output.
\<close>

theorem fcopy_long_line_counterexample:
  "sorted [5::nat] \<and> inpos (start longhdr 595 842) \<le> 8217 \<and> 8217 \<le> length longhdr \<and>
   fst (fcopy 8217 (Some [5]) (start longhdr 595 842)) \<and>
   outfile (snd (fcopy 8217 (Some [5]) (start longhdr 595 842))) =
     ''%!PS\<newline>%%rest\<newline>%%EndComments\<newline>'' \<and>
   kept longhdr 0 8217 [5] = ''%!PS\<newline>%%EndComments\<newline>'' \<and>
   outfile (snd (fcopy 8217 (Some [5]) (start longhdr 595 842))) \<noteq>
     outfile (start longhdr 595 842) @
     kept (infile (start longhdr 595 842)) (inpos (start longhdr 595 842)) 8217 [5]"
proof -
  have i: "outfile (start longhdr 595 842) = []" "infile (start longhdr 595 842) = longhdr"
    "inpos (start longhdr 595 842) = 0" "outroom (start longhdr 595 842) = None"
    by (simp_all add: start_def)
  show ?thesis
    by (simp add: fcopy_longhdr [OF i(2,3,4)] kept_longhdr i longhdr_length)
qed

lemma fcopy_null_ok:
  assumes "outroom s = None" "up_to \<le> length (infile s)"
  shows "fcopy up_to None s =
         (True, wrote (slice (infile s) (inpos s) up_to) (s\<lparr>inpos := max (inpos s) up_to\<rparr>))"
  using fcopy_tail [OF assms(2)] assms(1) by (simp add: fcopy_def fcopy_null_def)

lemma writestring_wrote: "outroom s = None \<Longrightarrow> writestring str s = wrote str s"
  by (simp add: writestring_ok)


section \<open>The scan\<close>

lemma branch_step_pages:
  assumes "branch_step b cap r n sh s = Next n' sh' s'"
    and "length (pageptr s) = nat (pages s)" and "0 \<le> pages s"
  shows "length (pageptr s') = nat (pages s') \<and> 0 \<le> pages s'"
  using assms by (cases b) (auto simp: add_sizeheader_def nat_add_distrib split: option.splits if_splits)

lemma branch_step_break:
  assumes "branch_step b cap r n sh s = Break s'"
  shows "pageptr s' = pageptr s \<and> pages s' = pages s"
  using assms by (cases b) (auto simp: add_sizeheader_def fseeko_def split: option.splits if_splits)

lemma scanloop_pages:
  "scanloop cap n sh s = Inr (sh', s') \<Longrightarrow> length (pageptr s) = nat (pages s) \<Longrightarrow>
   0 \<le> pages s \<Longrightarrow> length (pageptr s') = nat (pages s') \<and> 0 \<le> pages s'"
proof (induction cap n sh s rule: scanloop.induct)
  case (1 cap nesting sh s)
  obtain x y where f: "fgets s = (x, y)" by (cases "fgets s")
  show ?case
  proof (cases x)
    case None
    then have "y = s" using f fgets_None by simp
    then show ?thesis
      using "1.prems" f None by (subst (asm) scanloop.simps) simp
  next
    case (Some l)
    have y: "pageptr y = pageptr s" "pages y = pages s"
      using fgets_Some(1) [of s l y] f Some by simp_all
    show ?thesis
    proof (cases "scanline cap (inpos s) (cstr l) nesting sh y")
      case (Next n' h' t)
      have i: "length (pageptr t) = nat (pages t) \<and> 0 \<le> pages t"
        using branch_step_pages [of _ cap "inpos s" nesting sh y n' h' t] Next y "1.prems"(2,3)
        by (simp add: scanline_def)
      have "scanloop cap n' h' t = Inr (sh', s')"
        using "1.prems"(1) f Some Next by (subst (asm) scanloop.simps) simp
      then show ?thesis
        using "1.IH" [OF f [symmetric] Some Next] i by simp
    next
      case (Break t)
      have "s' = t"
        using "1.prems"(1) f Some Break by (subst (asm) scanloop.simps) simp
      moreover have "pageptr t = pageptr y \<and> pages t = pages y"
        using branch_step_break [of _ cap "inpos s" nesting sh y t] Break
        by (simp add: scanline_def)
      ultimately show ?thesis using y "1.prems"(2,3) by simp
    next
      case Overrun
      then show ?thesis
        using "1.prems"(1) f Some by (subst (asm) scanloop.simps) simp
    qed
  qed
qed

text \<open>
  Claim C8. When \<open>scanpages\<close> returns, the offset at which the scan stopped (the position
  of the input, at the end of the file or at the \<open>%%Trailer\<close> or \<open>%%EOF\<close> line) has been
  appended to \<open>pageptr\<close> as the last entry, so that \<open>pageptr\<close> has \<open>pages + 1\<close>
  entries; and \<open>endsetup\<close> is at most \<open>pageptr[0]\<close>: it is \<open>pageptr[0]\<close> whenever
  the value recorded by the scan is 0 or greater than \<open>pageptr[0]\<close>, and the recorded
  value otherwise.
\<close>

theorem scan_sentinel_and_setup:
  assumes "scanpages cap sizeheaders s = Inr (sh', s')"
  shows "\<exists>s1. scanloop cap 0 (map_option (\<lambda>xs. []) sizeheaders)
                 (fseeko 0 (s\<lparr>pageptr := [], pages := 0\<rparr>)) = Inr (sh', s1) \<and>
              pageptr s' = pageptr s1 @ [inpos s1] \<and>
              inpos s' = inpos s1 \<and> pages s' = pages s1 \<and>
              length (pageptr s') = nat (pages s') + 1 \<and> 0 \<le> pages s' \<and>
              endsetup s' = (if endsetup s1 = 0 \<or> endsetup s1 > pageptr s' ! 0
                             then pageptr s' ! 0 else endsetup s1) \<and>
              endsetup s' \<le> pageptr s' ! 0"
proof -
  let ?s0 = "fseeko 0 (s\<lparr>pageptr := [], pages := 0\<rparr>)"
  obtain s1 where l: "scanloop cap 0 (map_option (\<lambda>xs. []) sizeheaders) ?s0 = Inr (sh', s1)"
    and f: "s' = scan_finish s1"
    using assms by (auto simp: scanpages_def Let_def split: if_splits sum.splits)
  have "length (pageptr s1) = nat (pages s1) \<and> 0 \<le> pages s1"
    using scanloop_pages [OF l] by (simp add: fseeko_def)
  then show ?thesis
    using l f by (auto simp: scan_finish_def Let_def)
qed

lemmas scan_eval = scanpages_def scanloop.simps fgets_def start_def BUFSIZ_def scanline_def
  branch_of_def cstr_def iscomment_def fseeko_def scan_finish_def Let_def add_sizeheader_def

theorem scan_sentinel_and_setup_witness:
  "scanpages 20 (Some []) (start doc4 595 842) = Inr (Some [], scanned4) \<and>
   pageptr scanned4 = [40, 70, 100, 130, 160] \<and> inpos scanned4 = 160 \<and> pages scanned4 = 4 \<and>
   length (pageptr scanned4) = nat (pages scanned4) + 1 \<and>
   endsetup scanned4 = 40 \<and> endsetup scanned4 \<le> pageptr scanned4 ! 0"
proof -
  have e: "scanpages 20 (Some []) (start doc4 595 842) = Inr (Some [], scanned4)"
    by (simp add: scan_eval doc4_def scanned4_def)
  have "length (pageptr scanned4) = nat (pages scanned4) + 1 \<and>
        endsetup scanned4 \<le> pageptr scanned4 ! 0"
    using scan_sentinel_and_setup [OF e] by blast
  then show ?thesis
    using e by (simp add: scanned4_def)
qed

text \<open>The scan of \<open>longhdr\<close>: the line at offset 5 is read in two pieces, and the
  second piece, a comment, leaves the scan in the header.\<close>

lemma scan_longhdr: "scanpages 20 (Some []) (start longhdr 595 842) = Inr (Some [5], scannedL)"
proof -
  let ?s = "start longhdr 595 842"
  have f0: "fgets ?s = (Some ''%!PS\<newline>'', ?s\<lparr>inpos := 5\<rparr>)"
    by (simp add: fgets_def start_def BUFSIZ_def longhdr_def)
  have f1: "fgets (t\<lparr>inpos := 5\<rparr>) =
      (Some (''%%BoundingBox:'' @ replicate 8177 CHR ''x''), t\<lparr>inpos := 8196\<rparr>)"
    if "infile t = longhdr" for t
    using that by (simp add: fgets_def BUFSIZ_def longhdr_chunk)
  have f2: "fgets (t\<lparr>inpos := 8196\<rparr>) = (Some ''%%rest\<newline>'', t\<lparr>inpos := 8203\<rparr>)"
    if "infile t = longhdr" for t
    using that by (simp add: fgets_def BUFSIZ_def longhdr_parts)
  have f3: "fgets (t\<lparr>inpos := 8203\<rparr>) = (Some ''%%EndComments\<newline>'', t\<lparr>inpos := 8217\<rparr>)"
    if "infile t = longhdr" for t
    using that by (simp add: fgets_def BUFSIZ_def longhdr_parts)
  have f4: "fgets (t\<lparr>inpos := 8217\<rparr>) = (None, t\<lparr>inpos := 8217\<rparr>)"
    if "infile t = longhdr" for t
    using that by (simp add: fgets_def BUFSIZ_def longhdr_length)
  let ?s0 = "(start longhdr 595 842)\<lparr>pageptr := [], pages := 0, inpos := 0\<rparr>"
  have i: "infile ?s0 = longhdr" "infile (t\<lparr>headerpos := hp\<rparr>) = infile t" for t hp
    by (simp_all add: start_def)
  have l0: "scanline 20 0 (cstr ''%!PS\<newline>'') 0 (Some []) (?s0\<lparr>inpos := 5\<rparr>) =
      Next 0 (Some []) (?s0\<lparr>inpos := 5\<rparr>)"
    by (simp add: scanline_def branch_of_def cstr_def iscomment_def start_def)
  have l1: "scanline 20 5 (cstr (''%%BoundingBox:'' @ replicate 8177 CHR ''x'')) 0 (Some [])
        (?s0\<lparr>inpos := 8196\<rparr>) = Next 0 (Some [5]) (?s0\<lparr>inpos := 8196\<rparr>)"
    by (simp add: scanline_def branch_of_def cstr_def iscomment_def start_def add_sizeheader_def)
  have l2: "scanline 20 8196 (cstr ''%%rest\<newline>'') 0 (Some [5]) (?s0\<lparr>inpos := 8203\<rparr>) =
      Next 0 (Some [5]) (?s0\<lparr>inpos := 8203\<rparr>)"
    by (simp add: scanline_def branch_of_def cstr_def iscomment_def start_def)
  have l3: "scanline 20 8203 (cstr ''%%EndComments\<newline>'') 0 (Some [5]) (?s0\<lparr>inpos := 8217\<rparr>) =
      Next 0 (Some [5]) (?s0\<lparr>inpos := 8217, headerpos := 8217\<rparr>)"
    by (simp add: scanline_def branch_of_def cstr_def iscomment_def start_def)
  have g0: "fgets ?s0 = (Some ''%!PS\<newline>'', ?s0\<lparr>inpos := 5\<rparr>)"
    by (simp add: fgets_def start_def BUFSIZ_def longhdr_def)
  have r4: "scanloop 20 0 (Some [5]) (?s0\<lparr>inpos := 8217, headerpos := 8217\<rparr>) =
      Inr (Some [5], ?s0\<lparr>inpos := 8217, headerpos := 8217\<rparr>)"
    by (subst scanloop.simps) (simp add: fgets_def start_def longhdr_length)
  have r3: "scanloop 20 0 (Some [5]) (?s0\<lparr>inpos := 8203\<rparr>) =
      Inr (Some [5], ?s0\<lparr>inpos := 8217, headerpos := 8217\<rparr>)"
    using f3 [of ?s0] l3 r4 by (subst scanloop.simps) (simp add: start_def)
  have r2: "scanloop 20 0 (Some [5]) (?s0\<lparr>inpos := 8196\<rparr>) =
      Inr (Some [5], ?s0\<lparr>inpos := 8217, headerpos := 8217\<rparr>)"
    using f2 [of ?s0] l2 r3 by (subst scanloop.simps) (simp add: start_def)
  have r1: "scanloop 20 0 (Some []) (?s0\<lparr>inpos := 5\<rparr>) =
      Inr (Some [5], ?s0\<lparr>inpos := 8217, headerpos := 8217\<rparr>)"
    using f1 [of ?s0] l1 r2 by (subst scanloop.simps) (simp add: start_def)
  have r0: "scanloop 20 0 (Some []) ?s0 =
      Inr (Some [5], ?s0\<lparr>inpos := 8217, headerpos := 8217\<rparr>)"
    using g0 l0 r1 by (subst scanloop.simps) (simp add: start_def)
  show ?thesis
    using r0 by (simp add: scanpages_def fseeko_def scan_finish_def scannedL_def start_def Let_def)
qed

section \<open>The emitter\<close>

text \<open>What lines 145-149 of psspec.c write, on a device that takes every write and with the
  recorded offsets inside the file.\<close>

lemma emit_partprolog_eq:
  assumes "outroom s = None" and "beginprocset s \<le> length (infile s)"
    and "endsetup s \<le> length (infile s)"
  shows "\<exists>s'. emit_partprolog s = Inr s' \<and>
           outfile s' = outfile s @
             (if beginprocset s \<noteq> 0 then slice (infile s) (inpos s) (beginprocset s) else []) @
             slice (infile s)
               (if endprocset s \<noteq> 0 then endprocset s
                else if beginprocset s \<noteq> 0 then max (inpos s) (beginprocset s)
                else inpos s)
               (endsetup s) @
             (if beginprocset s = 0 then xform_line else [])"
proof -
  let ?f = "infile s"
  define first where "first = (if beginprocset s \<noteq> 0 then slice ?f (inpos s) (beginprocset s) else [])"
  define s1 where "s1 = (if beginprocset s \<noteq> 0
      then wrote first (s\<lparr>inpos := max (inpos s) (beginprocset s)\<rparr>) else s)"
  have c1: "(if beginprocset s \<noteq> 0
            then (case fcopy (beginprocset s) None s of
                    (r, t) \<Rightarrow> if \<not> r then Inl PrologueError else Inr t)
            else Inr s) = Inr s1"
    using fcopy_null_ok [OF assms(1,2)] by (simp add: s1_def first_def)
  have k1: "infile s1 = ?f" "outroom s1 = None" "endprocset s1 = endprocset s"
    "endsetup s1 = endsetup s" "beginprocset s1 = beginprocset s" "outfile s1 = outfile s @ first"
    "inpos s1 = (if beginprocset s \<noteq> 0 then max (inpos s) (beginprocset s) else inpos s)"
    using assms(1) by (simp_all add: s1_def first_def)
  define s2 where "s2 = (if endprocset s1 \<noteq> 0 then fseeko (endprocset s1) s1 else s1)"
  have k2: "infile s2 = ?f" "outroom s2 = None" "endsetup s2 = endsetup s"
    "beginprocset s2 = beginprocset s" "outfile s2 = outfile s @ first"
    "inpos s2 = (if endprocset s \<noteq> 0 then endprocset s
                else if beginprocset s \<noteq> 0 then max (inpos s) (beginprocset s) else inpos s)"
    using k1 by (simp_all add: s2_def fseeko_def)
  define s3 where "s3 = wrote (slice ?f (inpos s2) (endsetup s)) (s2\<lparr>inpos := max (inpos s2) (endsetup s)\<rparr>)"
  have c3: "writeprolog s2 = Inr s3"
    using fcopy_null_ok [of s2 "endsetup s2"] k2(1,2,3) assms(3)
    by (simp add: writeprolog_def s3_def)
  have "writepartprolog s =
      (case writeprolog s2 of Inl e \<Rightarrow> Inl e | Inr t \<Rightarrow> Inr (beginprocset t = 0, t))"
    by (simp only: writepartprolog_def c1 sum.case Let_def s2_def)
  then have w: "writepartprolog s = Inr (beginprocset s = 0, s3)"
    by (simp add: c3) (simp add: s3_def k2)
  have o3: "outroom s3 = None" by (simp add: s3_def k2)
  have "emit_partprolog s = Inr (if beginprocset s = 0 then wrote xform_line s3 else s3)"
    by (simp add: emit_partprolog_def w writestring_wrote o3)
  then show ?thesis
    by (auto simp: s3_def k2 first_def)
qed

text \<open>
  Claim C1, as amended. On a device that takes every write and with the recorded offsets
  inside the file: when \<open>beginprocset \<noteq> 0\<close> the emitter copies the prolog up to
  \<open>beginprocset\<close>, seeks to \<open>endprocset\<close> if one is recorded, copies on to \<open>endsetup\<close>
  and does not write the line that composes \<open>PStoPSxform\<close> from the current matrix; when
  \<open>beginprocset = 0\<close> it copies the prolog to \<open>endsetup\<close> and then writes that line.
\<close>

theorem partprolog_output:
  assumes "outroom s = None" and "beginprocset s \<le> length (infile s)"
    and "endsetup s \<le> length (infile s)"
  shows "\<exists>s'. emit_partprolog s = Inr s' \<and>
           outfile s' = outfile s @
             (if beginprocset s \<noteq> 0 then slice (infile s) (inpos s) (beginprocset s) else []) @
             slice (infile s)
               (if endprocset s \<noteq> 0 then endprocset s
                else if beginprocset s \<noteq> 0 then max (inpos s) (beginprocset s)
                else inpos s)
               (endsetup s) @
             (if beginprocset s = 0 then xform_line else [])"
  using assms by (rule emit_partprolog_eq)

theorem partprolog_output_witness:
  "outroom withprocset = None \<and> beginprocset withprocset \<le> length (infile withprocset) \<and>
   endsetup withprocset \<le> length (infile withprocset) \<and> beginprocset withprocset \<noteq> 0 \<and>
   (\<exists>s'. emit_partprolog withprocset = Inr s' \<and> outfile s' = ''abfgh'')"
proof -
  have h: "outroom withprocset = None" "beginprocset withprocset \<le> length (infile withprocset)"
    "endsetup withprocset \<le> length (infile withprocset)"
    by (simp_all add: withprocset_def start_def)
  have v: "beginprocset withprocset = 2" "endprocset withprocset = 5" "endsetup withprocset = 8"
    "inpos withprocset = 0" "outfile withprocset = []" "infile withprocset = ''abcdefghij''"
    by (simp_all add: withprocset_def start_def)
  show ?thesis
    using partprolog_output [OF h] h by (simp add: v slice_def)
qed

text \<open>
  The claim as stated fails both ways. After the scan of \<open>doc4\<close>, which has no PStoPS
  procset (\<open>beginprocset = 0\<close>), the emitter at the end of the header has nothing left to
  copy and writes the composition line; in a state with a procset recorded
  (\<open>beginprocset = 2\<close>) it writes the two pieces of prolog around it and no such line.
\<close>

theorem partprolog_counterexample:
  "beginprocset (fseeko 40 scanned4) = 0 \<and>
   map_sum id outfile (emit_partprolog (fseeko 40 scanned4)) = Inr xform_line \<and>
   beginprocset withprocset \<noteq> 0 \<and>
   map_sum id outfile (emit_partprolog withprocset) = Inr ''abfgh''"
proof -
  let ?s = "fseeko 40 scanned4"
  have h: "outroom ?s = None" "beginprocset ?s \<le> length (infile ?s)"
    "endsetup ?s \<le> length (infile ?s)"
    by (simp_all add: scanned4_def start_def fseeko_def doc4_def)
  have v: "beginprocset ?s = 0" "endprocset ?s = 0" "endsetup ?s = 40" "inpos ?s = 40"
    "outfile ?s = []"
    by (simp_all add: scanned4_def start_def fseeko_def)
  have a: "map_sum id outfile (emit_partprolog ?s) = Inr xform_line"
    using emit_partprolog_eq [OF h] by (auto simp: v slice_def)
  have h': "outroom withprocset = None" "beginprocset withprocset \<le> length (infile withprocset)"
    "endsetup withprocset \<le> length (infile withprocset)"
    by (simp_all add: withprocset_def start_def)
  have v': "beginprocset withprocset = 2" "endprocset withprocset = 5" "endsetup withprocset = 8"
    "inpos withprocset = 0" "outfile withprocset = []" "infile withprocset = ''abcdefghij''"
    by (simp_all add: withprocset_def start_def)
  have b: "map_sum id outfile (emit_partprolog withprocset) = Inr ''abfgh''"
    using emit_partprolog_eq [OF h'] by (auto simp: v' slice_def)
  show ?thesis
    using a b v(1) v'(1) by simp
qed

text \<open>What \<open>writeheadermedia\<close> does when no \<open>%%Pages:\<close> comment was recorded.\<close>

lemma writeheadermedia_nopages:
  assumes "pagescmt s = 0" and "sorted ign" and "\<forall>e \<in> set ign. 0 < e"
    and "lines_fit (infile s) (headerpos s) ign"
  shows "if headerpos s \<le> length (infile s) \<and>
            room_ok (length (kept (infile s) 0 (headerpos s) ign)) s
         then \<exists>s'. writeheadermedia p (Some ign) w h s = Inr s' \<and>
                outfile s' = outfile s @ kept (infile s) 0 (headerpos s) ign \<and>
                bytes s' = bytes s + int (length (kept (infile s) 0 (headerpos s) ign))
         else writeheadermedia p (Some ign) w h s = Inl HeaderError"
proof -
  let ?s0 = "fseeko 0 s"
  have e: "writeheadermedia p (Some ign) w h s =
      (case fcopy (headerpos s) (Some ign) ?s0 of
         (r, t) \<Rightarrow> if \<not> r then Inl HeaderError else Inr t)"
    using assms(1) by (simp add: writeheadermedia_def Let_def fseeko_def)
  have i: "inpos ?s0 = 0" "infile ?s0 = infile s" "outfile ?s0 = outfile s" "bytes ?s0 = bytes s"
    "room_ok n ?s0 = room_ok n s" for n
    by (simp_all add: fseeko_def)
  have s: "if (headerpos s \<le> length (infile s) \<or> 0 = headerpos s) \<and>
            room_ok (length (kept (infile s) 0 (headerpos s) ign)) s
         then \<exists>P. fcopy (headerpos s) (Some ign) ?s0 =
                     (True, wrote (kept (infile s) 0 (headerpos s) ign) (?s0\<lparr>inpos := P\<rparr>)) \<and>
                   headerpos s \<le> P
         else fst (fcopy (headerpos s) (Some ign) ?s0) = False"
    using fcopy_spec [of ?s0 "headerpos s" ign, unfolded i] assms(2,3,4) by simp
  show ?thesis
  proof (cases "headerpos s \<le> length (infile s) \<and>
            room_ok (length (kept (infile s) 0 (headerpos s) ign)) s")
    case True
    then obtain P where "fcopy (headerpos s) (Some ign) ?s0 =
        (True, wrote (kept (infile s) 0 (headerpos s) ign) (?s0\<lparr>inpos := P\<rparr>))"
      using s by auto
    then show ?thesis using True e by (simp add: i)
  next
    case False
    then have "fst (fcopy (headerpos s) (Some ign) ?s0) = False"
      using s by auto
    then show ?thesis using False e by (cases "fcopy (headerpos s) (Some ign) ?s0") simp
  qed
qed




text \<open>
  Claim C6 fails on the code. In the source the text of the blank page is one string
  literal whose first line ends in a backslash, which joins \<open>PStoPSxform concat\<close> and
  \<open>showpage\<close> with nothing in between: no newline is written after \<open>concat\<close>. Here
  the second cell of a 2-up sheet made from the one-page document \<open>doc1\<close>.
\<close>

lemma blank_body:
  "\<not> actualpg < pages s \<Longrightarrow>
   emit_body actualpg s = Inr (writestring ''PStoPSxform concatshowpage\<newline>'' s)"
  by (simp add: emit_body_def)

theorem blank_page_text:
  "scanpages 20 (Some []) (start doc1 595 842) = Inr (Some [], scanned1) \<and>
   pages scanned1 = 1 \<and>
   map_sum id outfile (emit_body 1 scanned1) = Inr ''PStoPSxform concatshowpage\<newline>''"
proof -
  have e: "scanpages 20 (Some []) (start doc1 595 842) = Inr (Some [], scanned1)"
    by (simp add: scan_eval doc1_def scanned1_def)
  have v: "pages scanned1 = 1" "outfile scanned1 = []" "outroom scanned1 = None"
    by (simp_all add: scanned1_def start_def)
  have "map_sum id outfile (emit_body 1 scanned1) = Inr ''PStoPSxform concatshowpage\<newline>''"
    by (simp add: blank_body v writestring_wrote)
  then show ?thesis
    using e v(1) by simp
qed

section \<open>Dimension arguments\<close>

text \<open>In an accepted argument \<open>parsedouble\<close> has consumed at least one character, and
  nothing is left after the unit.\<close>

lemma singledimen_accepted:
  assumes "singledimen atof w h str = Inr num"
  shows "consumed str \<noteq> []"
proof -
  let ?P = "\<lambda>c. isdigit c \<or> c = CHR ''-'' \<or> c = CHR ''.''"
  have "length (dropWhile ?P str) \<noteq> length str"
    using assms by (auto simp: singledimen_def parsedimen_def parsedouble_def Let_def
        split: sum.splits if_splits)
  then have "takeWhile ?P str \<noteq> []"
    by (metis append_Nil takeWhile_dropWhile_id)
  then show ?thesis by (simp add: consumed_def)
qed

text \<open>
  Claim C7 fails on the code. \<open>parsedouble\<close> takes \<open>-\<close> and \<open>.\<close> along with the
  digits and only refuses an empty token: the argument \<open>-\<close> is accepted, with the value
  \<open>atof\<close> gives it, though no digit was consumed.
\<close>

theorem singledimen_minus_accepted:
  "singledimen atof w h ''-'' = Inr (atof ''-'') \<and> consumed ''-'' = ''-'' \<and>
   filter isdigit (consumed ''-'') = []"
  by (simp add: singledimen_def parsedimen_def parsedouble_def consumed_def isdigit_def)

section \<open>The count of output pages\<close>

text \<open>What every routine leaves as it is: the count of output pages and the output already
  written.\<close>

lemma keeps_refl [simp]: "keeps s s"
  by (simp add: keeps_def)

lemma keeps_trans: "keeps a b \<Longrightarrow> keeps b c \<Longrightarrow> keeps a c"
  by (auto simp: keeps_def)

lemma keeps_inpos [simp]: "keeps s (s\<lparr>inpos := p\<rparr>)"
  by (simp add: keeps_def)

lemma keeps_upd [simp]:
  "keeps s (t\<lparr>inpos := p\<rparr>) = keeps s t" "keeps s (t\<lparr>bytes := b\<rparr>) = keeps s t"
  "keeps s (t\<lparr>pagelabel := l\<rparr>) = keeps s t" "keeps s (t\<lparr>pageno := n\<rparr>) = keeps s t"
  by (simp_all add: keeps_def)

lemma keeps_fgets: "fgets s = (x, s') \<Longrightarrow> keeps s s'"
  by (auto simp: fgets_def Let_def split: if_splits)

lemma keeps_fread: "fread n s = (b, s') \<Longrightarrow> keeps s s'"
  by (auto simp: fread_def Let_def)

lemma keeps_fwrite: "fwrite b s = (n, s') \<Longrightarrow> keeps s s'"
  by (auto simp: fwrite_def keeps_def split: option.splits)

lemma keeps_fputs: "fputs b s = (r, s') \<Longrightarrow> keeps s s'"
  by (auto simp: fputs_def dest: keeps_fwrite split: prod.splits)

lemma keeps_writestring [simp]: "keeps s (writestring str s)"
  by (auto simp: writestring_def dest: keeps_fputs split: prod.splits)

lemma keeps_writestring' : "keeps s t \<Longrightarrow> keeps s (writestring str t)"
  using keeps_trans keeps_writestring by blast

lemma keeps_copyloop: "copyloop n s = (r, s') \<Longrightarrow> keeps s s'"
proof (induction n arbitrary: s rule: less_induct)
  case (less n)
  show ?case
  proof (cases "n > 0")
    case False
    then show ?thesis using less.prems by (subst (asm) copyloop.simps) simp
  next
    case True
    define k where "k = (if n > BUFSIZ then BUFSIZ else n)"
    have k: "0 < k" "k \<le> n" using True by (auto simp: k_def BUFSIZ_def)
    obtain buf s1 where r: "fread k s = (buf, s1)" by (cases "fread k s")
    obtain w s2 where w: "fwrite buf s1 = (w, s2)" by (cases "fwrite buf s1")
    have k12: "keeps s s1" "keeps s1 s2" using r w keeps_fread keeps_fwrite by blast+
    show ?thesis
    proof (cases "length buf < k")
      case True
      then have "s' = s1" using less.prems \<open>0 < n\<close> r
        by (subst (asm) copyloop.simps) (simp add: k_def [symmetric] Let_def)
      then show ?thesis using k12 by simp
    next
      case nb: False
      show ?thesis
      proof (cases "w < k")
        case True
        then have "s' = s2" using less.prems \<open>0 < n\<close> r w nb
          by (subst (asm) copyloop.simps) (simp add: k_def [symmetric] Let_def)
        then show ?thesis using k12 keeps_trans by blast
      next
        case False
        then have "copyloop (n - k) (s2\<lparr>bytes := bytes s2 + int k\<rparr>) = (r, s')"
          using less.prems \<open>0 < n\<close> r w nb
          by (subst (asm) copyloop.simps) (simp add: k_def [symmetric] Let_def)
        then have "keeps (s2\<lparr>bytes := bytes s2 + int k\<rparr>) s'"
          using less.IH [of "n - k"] k by simp
        moreover have "keeps s (s2\<lparr>bytes := bytes s2 + int k\<rparr>)"
          using k12 keeps_trans by auto
        ultimately show ?thesis using keeps_trans by blast
      qed
    qed
  qed
qed

lemma keeps_fcopy_null: "fcopy_null up_to s = (r, s') \<Longrightarrow> keeps s s'"
  by (simp add: fcopy_null_def keeps_copyloop)

lemma keeps_ignloop: "ignloop up_to es s = (r, s') \<Longrightarrow> keeps s s'"
proof (induction es arbitrary: s rule: length_induct)
  case (1 es)
  show ?case
  proof (cases es)
    case Nil
    then show ?thesis using "1.prems" by (simp add: ignloop.simps)
  next
    case (Cons e es')
    show ?thesis
    proof (cases "e > 0 \<and> e < up_to")
      case False
      then show ?thesis using "1.prems" Cons by (auto simp: ignloop.simps)
    next
      case True
      obtain r1 s1 where c: "fcopy_null e s = (r1, s1)" by (cases "fcopy_null e s")
      have k1: "keeps s s1" using c by (rule keeps_fcopy_null)
      show ?thesis
      proof (cases r1)
        case False
        then have "s' = s1" using "1.prems" Cons True c by (simp add: ignloop.simps)
        then show ?thesis using k1 by simp
      next
        case r1: True
        obtain x s2 where g: "fgets s1 = (x, s2)" by (cases "fgets s1")
        have k2: "keeps s s2" using k1 keeps_fgets [OF g] keeps_trans by blast
        show ?thesis
        proof (cases x)
          case None
          then have "s' = s2" using "1.prems" Cons True c r1 g by (simp add: ignloop.simps)
          then show ?thesis using k2 by simp
        next
          case (Some l)
          then have "ignloop up_to (skip_ign (inpos s2) es') s2 = (r, s')"
            using "1.prems" Cons True c r1 g by (simp add: ignloop.simps)
          moreover have "length (skip_ign (inpos s2) es') < length es"
          proof -
            have "length (skip_ign h xs) \<le> length xs" for h xs
              by (induction xs) auto
            then show ?thesis using Cons by (simp add: less_Suc_eq_le)
          qed
          ultimately have "keeps s2 s'" using "1.IH" by blast
          then show ?thesis using k2 keeps_trans by blast
        qed
      qed
    qed
  qed
qed

lemma keeps_fcopy: "fcopy up_to ig s = (r, s') \<Longrightarrow> keeps s s'"
proof (cases ig)
  case None
  assume "fcopy up_to ig s = (r, s')"
  then show ?thesis using None by (simp add: fcopy_def keeps_fcopy_null)
next
  case (Some ign)
  assume a: "fcopy up_to ig s = (r, s')"
  obtain r1 s1 where i: "ignloop up_to (skip_ign (inpos s) ign) s = (r1, s1)"
    by (cases "ignloop up_to (skip_ign (inpos s) ign) s")
  have k1: "keeps s s1" using i by (rule keeps_ignloop)
  show ?thesis
  proof (cases r1)
    case False
    then have "s' = s1" using a Some i by (simp add: fcopy_def)
    then show ?thesis using k1 by simp
  next
    case True
    then have "copyloop (up_to - inpos s1) s1 = (r, s')" using a Some i by (simp add: fcopy_def)
    then show ?thesis using k1 keeps_copyloop keeps_trans by blast
  qed
qed


lemma keeps_fseeko [simp]: "keeps s (fseeko p s)"
  by (simp add: fseeko_def)

lemma keeps_seekpage: "seekpage p s = Inr s' \<Longrightarrow> keeps s s'"
proof -
  assume a: "seekpage p s = Inr s'"
  obtain x s1 where g: "fgets (fseeko (pageptr s ! nat p) s) = (x, s1)"
    by (cases "fgets (fseeko (pageptr s ! nat p) s)")
  have "keeps s s1"
    using keeps_fgets [OF g] keeps_fseeko keeps_trans by blast
  then show ?thesis
    using a g by (auto simp: seekpage_def Let_def split: if_splits option.splits)
qed

lemma keeps_pagesetuploop: "pagesetuploop s = Inr s' \<Longrightarrow> keeps s s'"
proof (induction s rule: pagesetuploop.induct)
  case (1 s)
  obtain x s1 where g: "fgets s = (x, s1)" by (cases "fgets s")
  have k1: "keeps s s1" using g by (rule keeps_fgets)
  show ?case
  proof (cases x)
    case None
    then show ?thesis using "1.prems" g by (subst (asm) pagesetuploop.simps) simp
  next
    case (Some l)
    show ?thesis
    proof (cases "prefix ''PStoPSxform'' (cstr l)")
      case True
      then have "s' = s1" using "1.prems" g Some by (subst (asm) pagesetuploop.simps) simp
      then show ?thesis using k1 by simp
    next
      case False
      obtain ok s2 where w: "fputs (cstr l) s1 = (ok, s2)" by (cases "fputs (cstr l) s1")
      have k2: "keeps s s2" using k1 keeps_fputs [OF w] keeps_trans by blast
      show ?thesis
      proof (cases ok)
        case False
        then show ?thesis using "1.prems" g Some \<open>\<not> prefix ''PStoPSxform'' (cstr l)\<close> w
          by (subst (asm) pagesetuploop.simps) simp
      next
        case True
        then have r: "pagesetuploop (s2\<lparr>bytes := bytes s2 + int (length (cstr l))\<rparr>) = Inr s'"
          using "1.prems" g Some False w by (subst (asm) pagesetuploop.simps) (simp add: Let_def)
        have "keeps (s2\<lparr>bytes := bytes s2 + int (length (cstr l))\<rparr>) s'"
          using "1.IH" [of x s1 l "cstr l" ok s2] g Some False w True r by simp
        moreover have "keeps s (s2\<lparr>bytes := bytes s2 + int (length (cstr l))\<rparr>)"
          using k2 by simp
        ultimately show ?thesis using keeps_trans by blast
      qed
    qed
  qed
qed

lemma keeps_writepagesetup: "writepagesetup s = Inr s' \<Longrightarrow> keeps s s'"
  by (auto simp: writepagesetup_def keeps_pagesetuploop split: if_splits)

lemma keeps_writepagebody: "writepagebody p s = Inr s' \<Longrightarrow> keeps s s'"
  by (auto simp: writepagebody_def Let_def dest: keeps_fcopy split: if_splits prod.splits)

lemma keeps_emit_body: "emit_body p s = Inr s' \<Longrightarrow> keeps s s'"
proof -
  assume a: "emit_body p s = Inr s'"
  show ?thesis
  proof (cases "p < pages s")
    case False
    then show ?thesis using a by (auto simp: emit_body_def)
  next
    case True
    then obtain s1 where 1: "writepagesetup s = Inr s1"
      and 2: "writepagebody p (writestring ''PStoPSxform concat\<newline>'' s1) = Inr s'"
      using a by (auto simp: emit_body_def split: sum.splits)
    have "keeps s s1" using 1 by (rule keeps_writepagesetup)
    moreover have "keeps s1 (writestring ''PStoPSxform concat\<newline>'' s1)" by simp
    moreover have "keeps (writestring ''PStoPSxform concat\<newline>'' s1) s'"
      using 2 by (rule keeps_writepagebody)
    ultimately show ?thesis using keeps_trans by blast
  qed
qed

lemma keeps_Let: "keeps s a \<Longrightarrow> (\<And>x. keeps s x \<Longrightarrow> keeps s (f x)) \<Longrightarrow> keeps s (Let a f)"
  by simp

lemma keeps_If: "keeps s a \<Longrightarrow> keeps s b \<Longrightarrow> keeps s (if c then a else b)"
  by simp

lemma keeps_gsave_block [simp]: "keeps s (gsave_block F fmt draw ps s)"
  unfolding gsave_block_def writestringf_def
  by (intro keeps_Let keeps_If keeps_writestring' keeps_refl | assumption)+

lemma writepageheader_page:
  "outputpage (writepageheader lbl s) = outputpage s + 1 \<and>
   prefix (outfile s) (outfile (writepageheader lbl s)) \<and>
   (outroom s = None \<longrightarrow> outroom (writepageheader lbl s) = None)"
proof -
  let ?s1 = "s\<lparr>outputpage := outputpage s + 1\<rparr>"
  have "keeps ?s1 (writepageheader lbl s)"
    by (simp add: writepageheader_def Let_def)
  then show ?thesis by (simp add: keeps_def)
qed

lemma specs_loop_pages:
  "specs_loop al F fmt draw maxpage modl thispg pss s = Inr s' \<Longrightarrow>
   outputpage s' = outputpage s + headers al F pss \<and> prefix (outfile s) (outfile s') \<and>
   (outroom s = None \<longrightarrow> outroom s' = None)"
proof (induction pss arbitrary: al s)
  case Nil
  then show ?case by simp
next
  case (Cons ps rest)
  let ?pg = "label_page F maxpage thispg modl ps"
  obtain s1 where 1: "(if ?pg < pages s then seekpage ?pg s else Inr s) = Inr s1"
    using Cons.prems by (auto simp: Let_def split: sum.splits)
  have k1: "keeps s s1" using 1 by (auto dest: keeps_seekpage split: if_splits)
  let ?lbl = "mklabel F maxpage thispg modl (ps # rest)"
  define s2 where "s2 = (if \<not> al then writepageheader ?lbl (s1\<lparr>pagelabel := ?lbl\<rparr>) else s1)"
  have k2: "outputpage s2 = outputpage s + (if al then 0 else 1) \<and>
      prefix (outfile s) (outfile s2) \<and> (outroom s = None \<longrightarrow> outroom s2 = None)"
    using k1 writepageheader_page [of ?lbl "s1\<lparr>pagelabel := ?lbl\<rparr>"]
    by (auto simp: s2_def keeps_def)
  define s5 where "s5 = (let s3 = writestring ''userdict/PStoPSsaved save put\<newline>'' s2;
      s4 = (if ps_flags ps AND GSAVE F \<noteq> 0 then gsave_block F fmt draw ps s3 else s3)
    in if ps_flags ps AND ADD_NEXT F \<noteq> 0
       then writestring ''/PStoPSenablepage false def\<newline>'' s4 else s4)"
  have k5: "keeps s2 s5"
    by (auto simp: s5_def Let_def intro: keeps_trans [OF keeps_writestring] keeps_writestring'
        keeps_trans [OF keeps_writestring keeps_gsave_block])
  have "(case emit_body ?pg s5 of
           Inl e \<Rightarrow> Inl e
         | Inr s6 \<Rightarrow>
             specs_loop (ps_flags ps AND ADD_NEXT F \<noteq> 0) F fmt draw maxpage modl thispg rest
               (writestring ''PStoPSsaved restore\<newline>'' s6)) = Inr s'"
    using Cons.prems by (simp only: specs_loop.simps Let_def s5_def s2_def 1 sum.case)
  then obtain s6 where 6: "emit_body ?pg s5 = Inr s6"
    and r: "specs_loop (ps_flags ps AND ADD_NEXT F \<noteq> 0) F fmt draw maxpage modl thispg rest
              (writestring ''PStoPSsaved restore\<newline>'' s6) = Inr s'"
    by (cases "emit_body ?pg s5") simp_all
  have k6: "keeps s5 (writestring ''PStoPSsaved restore\<newline>'' s6)"
    using keeps_emit_body [OF 6] by (rule keeps_writestring')
  have k: "keeps s2 (writestring ''PStoPSsaved restore\<newline>'' s6)"
    using k5 k6 by (rule keeps_trans)
  from Cons.IH [OF r] show ?case
    using k k2 by (auto simp: keeps_def)
qed

lemma keeps_trailerloop: "keeps s (trailerloop s)"
proof (induction s rule: trailerloop.induct)
  case (1 s)
  obtain x s1 where f: "fgets s = (x, s1)" by (cases "fgets s")
  show ?case
  proof (cases x)
    case None
    then show ?thesis using f keeps_fgets [OF f] by (simp add: trailerloop.simps [of s])
  next
    case (Some l)
    have "keeps (writestring (cstr l) s1) (trailerloop (writestring (cstr l) s1))"
      using "1.IH" [OF f [symmetric] Some] .
    then have "keeps s (trailerloop (writestring (cstr l) s1))"
      using keeps_fgets [OF f] keeps_writestring [of s1 "cstr l"] by (blast intro: keeps_trans)
    then show ?thesis using f Some by (simp add: trailerloop.simps [of s])
  qed
qed

lemma keeps_writetrailer: "writetrailer s = Inr s' \<Longrightarrow> keeps s s'"
  using keeps_trans [OF keeps_fseeko keeps_trailerloop]
  by (auto simp: writetrailer_def split: if_splits)

lemma keeps_writeprolog: "writeprolog s = Inr s' \<Longrightarrow> keeps s s'"
  by (auto simp: writeprolog_def Let_def split: prod.splits if_splits dest: keeps_fcopy)

lemma keeps_writesetup: "writesetup s = Inr s' \<Longrightarrow> keeps s s'"
  by (auto simp: writesetup_def Let_def split: prod.splits if_splits dest: keeps_fcopy)

lemma keeps_emit_procset [simp]: "keeps s (emit_procset nobind s)"
  by (auto simp: emit_procset_def Let_def intro!: keeps_writestring')

lemma keeps_writepartprolog: "writepartprolog s = Inr (r, s') \<Longrightarrow> keeps s s'"
proof -
  assume a: "writepartprolog s = Inr (r, s')"
  define e where "e = (if beginprocset s \<noteq> 0
            then (let (r, s1) = fcopy (beginprocset s) None s
                  in if \<not> r then Inl PrologueError else Inr s1)
            else Inr s)"
  have a': "(case e of Inl e \<Rightarrow> Inl e
      | Inr s1 \<Rightarrow>
          (let s2 = (if endprocset s1 \<noteq> 0 then fseeko (endprocset s1) s1 else s1)
           in case writeprolog s2 of
                Inl e \<Rightarrow> Inl e
              | Inr s3 \<Rightarrow> Inr (beginprocset s3 = 0, s3))) = Inr (r, s')"
    using a unfolding writepartprolog_def e_def .
  then obtain s1 where 1: "e = Inr s1"
    by (cases e) simp_all
  have k1: "keeps s s1"
    using 1 unfolding e_def by (auto simp: Let_def split: if_splits prod.splits dest: keeps_fcopy)
  define s2 where "s2 = (if endprocset s1 \<noteq> 0 then fseeko (endprocset s1) s1 else s1)"
  have k2: "keeps s1 s2" by (simp add: s2_def)
  have "(case writeprolog s2 of
                Inl e \<Rightarrow> Inl e
              | Inr s3 \<Rightarrow> Inr (beginprocset s3 = 0, s3)) = Inr (r, s')"
    using a' unfolding 1 s2_def by (simp add: Let_def)
  then have "writeprolog s2 = Inr s'"
    by (cases "writeprolog s2") simp_all
  then have "keeps s2 s'" by (rule keeps_writeprolog)
  with k1 k2 show ?thesis by (blast intro: keeps_trans)
qed

lemma keeps_emit_partprolog: "emit_partprolog s = Inr s' \<Longrightarrow> keeps s s'"
  by (auto simp: emit_partprolog_def split: sum.splits if_splits
      dest!: keeps_writepartprolog intro: keeps_writestring')

text \<open>The number of passes of the loop over the sheets.\<close>

lemma pages_loop_pages:
  "pages_loop F fmt draw maxpage modl specs thispg s = Inr s' \<Longrightarrow>
   outputpage s' = outputpage s +
     (if thispg < maxpage then (maxpage - thispg + modl - 1) div modl else 0) *
       headers False F specs \<and>
   prefix (outfile s) (outfile s') \<and> (outroom s = None \<longrightarrow> outroom s' = None)"
proof (induction F fmt draw maxpage modl specs thispg s rule: pages_loop.induct)
  case (1 F fmt draw maxpage modl specs thispg s)
  show ?case
  proof (cases "thispg < maxpage")
    case False
    then show ?thesis using "1.prems" by (simp add: pages_loop.simps [of _ _ _ maxpage])
  next
    case True
    obtain s1 where sl: "specs_loop False F fmt draw maxpage modl thispg specs s = Inr s1"
      and m: "0 < modl"
      and r: "pages_loop F fmt draw maxpage modl specs (thispg + modl) s1 = Inr s'"
      using "1.prems" True
      by (cases "specs_loop False F fmt draw maxpage modl thispg specs s")
         (auto simp: pages_loop.simps [of _ _ _ maxpage _ _ thispg] split: if_splits)
    note ih = "1.IH" [OF True sl _ r]
    have c: "(maxpage - thispg + modl - 1) div modl =
        1 + (if thispg + modl < maxpage then (maxpage - (thispg + modl) + modl - 1) div modl else 0)"
    proof (cases "thispg + modl < maxpage")
      case True
      have "(maxpage - thispg + modl - 1) div modl = (maxpage - thispg - 1 + 1 * modl) div modl"
        by (simp add: algebra_simps)
      also have "\<dots> = (maxpage - thispg - 1) div modl + 1"
        using m by (simp only: div_mult_self1 [of modl "maxpage - thispg - 1" 1])
      finally show ?thesis using True by (simp add: algebra_simps)
    next
      case False
      define r where "r = maxpage - thispg - 1"
      have r: "0 \<le> r" "r < modl"
        using False \<open>thispg < maxpage\<close> by (auto simp: r_def)
      have "(maxpage - thispg + modl - 1) div modl = (r + 1 * modl) div modl"
        by (simp add: r_def algebra_simps)
      also have "\<dots> = r div modl + 1"
        using m by (simp only: div_mult_self1 [of modl r 1])
      also have "\<dots> = 1"
        using r by (simp add: div_pos_pos_trivial)
      finally have "(maxpage - thispg + modl - 1) div modl = 1" .
      then show ?thesis using False by simp
    qed
    show ?thesis
      using ih specs_loop_pages [OF sl] m True c
      by (auto simp: algebra_simps intro: prefix_order.order_trans)
  qed
qed

lemma headers_specloop:
  "ADD_NEXT F \<noteq> 0 \<Longrightarrow> page < l_nup L \<Longrightarrow>
   headers al F (specloop F L page) = (if al then 0 else 1)"
proof (induction F L page arbitrary: al rule: specloop.induct)
  case (1 F L page)
  show ?case
    using "1.prems" "1.IH"
    apply (subst specloop.simps)
    apply (auto simp: Let_def addnext_def or_and_absorb)
    done
qed

lemma ceiling_div_int:
  fixes a b :: int
  assumes "0 < b"
  shows "\<lceil>real_of_int a / real_of_int b\<rceil> = (a + b - 1) div b"
proof -
  define q where "q = (a + b - 1) div b"
  have m: "(a + b - 1) mod b < b" "0 \<le> (a + b - 1) mod b"
    using assms by simp_all
  have e: "a + b - 1 = q * b + (a + b - 1) mod b"
    by (simp add: q_def)
  have 1: "a \<le> q * b" using e m by linarith
  have 2: "(q - 1) * b < a" using e m by (simp add: algebra_simps)
  have "real_of_int a / real_of_int b \<le> real_of_int q"
    using 1 assms by (simp add: pos_divide_le_eq flip: of_int_mult)
  moreover have "real_of_int q - 1 < real_of_int a / real_of_int b"
  proof -
    have "real_of_int ((q - 1) * b) < real_of_int a" using 2 by (simp only: of_int_less_iff)
    then show ?thesis using assms by (simp add: pos_less_divide_eq)
  qed
  ultimately show ?thesis
    unfolding q_def [symmetric] by (intro ceiling_unique) simp_all
qed

lemma maxpage_of_ceiling:
  assumes "0 \<le> pgs" "1 \<le> modl"
  shows "maxpage_of pgs modl = \<lceil>real_of_int pgs / real_of_int modl\<rceil> * modl"
  using assms by (simp add: maxpage_of_def sdiv_nonneg_pos ceiling_div_int)

lemma maxpage_of_passes:
  assumes "0 \<le> pgs" "1 \<le> modl"
  shows "(if 0 < maxpage_of pgs modl then (maxpage_of pgs modl - 0 + modl - 1) div modl else 0) =
         \<lceil>real_of_int pgs / real_of_int modl\<rceil>"
proof -
  define c where "c = \<lceil>real_of_int pgs / real_of_int modl\<rceil>"
  have m: "maxpage_of pgs modl = c * modl"
    unfolding c_def using assms by (rule maxpage_of_ceiling)
  have c0: "0 \<le> c" unfolding c_def using assms by (simp add: ceiling_div_int pos_imp_zdiv_nonneg_iff)
  show ?thesis
  proof (cases "0 < c")
    case True
    have "(c * modl + modl - 1) div modl = (modl - 1 + c * modl) div modl"
      by (simp add: algebra_simps)
    also have "\<dots> = c" using assms by (simp only: div_mult_self1) (simp add: div_pos_pos_trivial)
    finally show ?thesis using True assms unfolding c_def [symmetric] m by simp
  next
    case False
    then have "c = 0" using c0 by simp
    then show ?thesis unfolding c_def [symmetric] m by simp
  qed
qed

lemma writeheadermedia_pages:
  assumes w: "writeheadermedia p ign w h s = Inr s'"
    and pc: "pagescmt s \<noteq> 0" and none: "outroom s = None"
  shows "\<exists>t b. fcopy (pagescmt s) ign (fseeko 0 s) = (True, t) \<and>
           outfile s' = outfile t @ media_lines w h @ ''%%Pages: '' @ showint p @ '' 0\<newline>'' @ b"
proof -
  define s0 where "s0 = fseeko 0 s"
  have p0: "pagescmt s0 = pagescmt s" "outroom s0 = None"
    using none by (simp_all add: s0_def fseeko_def)
  obtain r t where fc: "fcopy (pagescmt s) ign s0 = (r, t)"
    by (cases "fcopy (pagescmt s) ign s0")
  obtain x s2 where fg: "fgets t = (x, s2)" by (cases "fgets t")
  have kt: "keeps s0 t" using fc by (rule keeps_fcopy)
  have k2: "keeps t s2" using fg by (rule keeps_fgets)
  have o2: "outroom s2 = None" "outfile s2 = outfile t"
    using kt k2 p0 fg by (auto simp: keeps_def fgets_def Let_def split: if_splits)
  define s4 where "s4 = writestring (''%%Pages: '' @ showint p @ '' 0\<newline>'')
     (if w > - 1 \<and> h > - 1
      then writestring (''%%BoundingBox: 0 0 '' @ showint (trunc_int w) @
                        '' '' @ showint (trunc_int h) @ ''\<newline>'')
             (writestring (''%%DocumentMedia: plain '' @ showint (trunc_int w) @ '' '' @
                           showint (trunc_int h) @ '' 0 () ()\<newline>'') s2)
      else s2)"
  have o4: "outfile s4 = outfile t @ media_lines w h @ ''%%Pages: '' @ showint p @ '' 0\<newline>''"
    using o2 by (simp add: s4_def writestring_wrote media_lines_def)
  have run: "r \<and> x \<noteq> None \<and>
      (let (r, s5) = fcopy (headerpos s4) ign s4 in if \<not> r then Inl HeaderError else Inr s5) = Inr s'"
    using w pc fc fg unfolding writeheadermedia_def s0_def [symmetric] s4_def
    by (auto simp: Let_def p0 split: if_splits option.splits sum.splits)
  obtain r5 where f5: "fcopy (headerpos s4) ign s4 = (r5, s')"
    using run by (auto simp: Let_def split: prod.splits if_splits)
  have "prefix (outfile s4) (outfile s')"
    using keeps_fcopy [OF f5] by (simp add: keeps_def)
  then obtain b where "outfile s' = outfile s4 @ b"
    by (auto simp: prefix_def)
  then show ?thesis
    using fc run o4 by (auto simp: s0_def)
qed

lemma keeps_writeheadermedia: "writeheadermedia p ign w h s = Inr s' \<Longrightarrow> keeps s s'"
proof -
  assume a: "writeheadermedia p ign w h s = Inr s'"
  define s0 where "s0 = fseeko 0 s"
  define e where "e = (if pagescmt s0 \<noteq> 0
               then (let (r, s1) = fcopy (pagescmt s0) ign s0
                     in if \<not> r then Inl HeaderError
                        else (case fgets s1 of
                                (None, s2) \<Rightarrow> Inl HeaderError
                              | (Some l, s2) \<Rightarrow>
                                  (let s3 = (if w > - 1 \<and> h > - 1
                                             then writestring
                                                    (''%%BoundingBox: 0 0 '' @ showint (trunc_int w) @
                                                     '' '' @ showint (trunc_int h) @ ''\<newline>'')
                                                    (writestring
                                                       (''%%DocumentMedia: plain '' @
                                                        showint (trunc_int w) @ '' '' @
                                                        showint (trunc_int h) @ '' 0 () ()\<newline>'')
                                                       s2)
                                             else s2)
                                   in Inr (writestring (''%%Pages: '' @ showint p @ '' 0\<newline>'') s3))))
               else Inr s0)"
  have a': "(case e of Inl e \<Rightarrow> Inl e
         | Inr s4 \<Rightarrow>
             (let (r, s5) = fcopy (headerpos s4) ign s4
              in if \<not> r then Inl HeaderError else Inr s5)) = Inr s'"
    using a unfolding writeheadermedia_def Let_def s0_def e_def .
  then obtain s4 where 4: "e = Inr s4" by (cases e) simp_all
  have k4: "keeps s0 s4"
  proof (cases "pagescmt s0 \<noteq> 0")
    case False
    then show ?thesis using 4 by (simp add: e_def)
  next
    case True
    obtain r t where fc: "fcopy (pagescmt s0) ign s0 = (r, t)"
      by (cases "fcopy (pagescmt s0) ign s0")
    obtain x s2 where fg: "fgets t = (x, s2)" by (cases "fgets t")
    have "keeps s0 s2"
      using keeps_fcopy [OF fc] keeps_fgets [OF fg] by (rule keeps_trans)
    then show ?thesis
      using 4 True fc fg unfolding e_def
      by (auto simp: Let_def split: if_splits option.splits intro!: keeps_writestring')
  qed
  obtain r5 where f5: "fcopy (headerpos s4) ign s4 = (r5, s')"
    using a' unfolding 4 by (auto simp: Let_def split: prod.splits if_splits)
  have "keeps s s0" by (simp add: s0_def)
  then show ?thesis
    using k4 keeps_fcopy [OF f5] by (blast intro: keeps_trans)
qed

section \<open>A run of psnup: two pages on a sheet\<close>

text \<open>The values the run on \<open>doc4\<close> needs: the layout and the specs for \<open>nup = 2\<close> on A4
  paper, the decimal digits, and the flag tests on the two specs.\<close>

lemma layout2: "find_layout (defaults 2) 595 842 =
   \<lparr>b_best = 208849 / 177241, b_scale = 595 / 842, b_hshift = 0, b_vshift = 457 / 1684,
    b_horiz = 1, b_vert = 2, b_rotate = True\<rparr>"
  by (simp add: find_layout_def defaults_def layout_loop.simps try_hor_def nextdiv.simps Let_def
      signed_divide_int_def signed_modulo_int_def)

lemma specs2:
  "mkspecs FM (layout_of (defaults 2) 595 842 (find_layout (defaults 2) 595 842)) =
     [\<lparr>ps_pageno = 0, ps_flags = 51, ps_rotate = 90, ps_xoff = 595, ps_yoff = 457 / 1684,
        ps_scale = 595 / 842\<rparr>,
      \<lparr>ps_pageno = 1, ps_flags = 50, ps_rotate = 90, ps_xoff = 595, ps_yoff = 709421 / 1684,
        ps_scale = 595 / 842\<rparr>]"
  unfolding layout2
  by (simp add: mkspecs_def specloop.simps layout_of_def defaults_def fillspec_def newspec_def Let_def
      across_of_def up_of_def FM_def signed_divide_int_def signed_modulo_int_def)

lemma digit_chars:
  "char_of (48::nat) = CHR ''0''" "char_of (49::nat) = CHR ''1''" "char_of (50::nat) = CHR ''2''"
  "char_of (51::nat) = CHR ''3''" "char_of (52::nat) = CHR ''4''" "char_of (53::nat) = CHR ''5''"
  "char_of (54::nat) = CHR ''6''" "char_of (55::nat) = CHR ''7''" "char_of (56::nat) = CHR ''8''"
  "char_of (57::nat) = CHR ''9''"
  by (simp_all add: char_of_def bit_Suc_0_iff)

lemma digits_small:
  "digits 0 = ''0''" "digits 1 = ''1''" "digits 2 = ''2''" "digits 3 = ''3''" "digits 4 = ''4''"
  "digits 5 = ''5''" "digits 8 = ''8''" "digits 9 = ''9''"
  by (simp_all add: digits.simps digit_chars char_of_def bit_Suc_0_iff)

lemma digits_Suc_0: "digits (Suc 0) = ''1''"
  using digits_small(2) by simp

lemma digits_two: "digits 90 = ''90''" "digits 42 = ''42''" "digits 59 = ''59''" "digits 84 = ''84''"
  by (simp_all add: digits.simps [of 90] digits.simps [of 42] digits.simps [of 59]
      digits.simps [of 84] digits_small digit_chars)

lemma digits_three: "digits 421 = ''421''" "digits 595 = ''595''" "digits 842 = ''842''"
  by (simp_all add: digits.simps [of 421] digits.simps [of 595] digits.simps [of 842]
      digits_two digit_chars)

lemma showints:
  "showint 0 = ''0''" "showint 1 = ''1''" "showint 2 = ''2''" "showint 3 = ''3''"
  "showint 4 = ''4''" "showint 90 = ''90''" "showint 421 = ''421''" "showint 595 = ''595''"
  "showint 842 = ''842''"
  by (simp_all add: showint_def digits_small digits_Suc_0 digits_two digits_three)

lemma fmts:
  "fmt0 595 = ''595''" "fmt0 842 = ''842''" "fmt0 (457 / 1684) = ''0''"
  "fmt0 (709421 / 1684) = ''421''" "fmt0 (595 / 842) = ''0''"
  by (simp_all add: fmt0_def trunc_int_def showints)

lemma flags2:
  "(51::int) AND GSAVE FM \<noteq> 0" "(51::int) AND OFFSET FM \<noteq> 0" "(51::int) AND ROTATE FM \<noteq> 0"
  "(51::int) AND HFLIP FM = 0" "(51::int) AND VFLIP FM = 0" "(51::int) AND SCALE FM \<noteq> 0"
  "(51::int) AND ADD_NEXT FM \<noteq> 0" "(51::int) AND REVERSED FM = 0"
  "(50::int) AND GSAVE FM \<noteq> 0" "(50::int) AND OFFSET FM \<noteq> 0" "(50::int) AND ROTATE FM \<noteq> 0"
  "(50::int) AND HFLIP FM = 0" "(50::int) AND VFLIP FM = 0" "(50::int) AND SCALE FM \<noteq> 0"
  "(50::int) AND ADD_NEXT FM = 0" "(50::int) AND REVERSED FM = 0"
  by (simp_all add: FM_def)

text \<open>The state after the scan of \<open>doc4\<close>, and the normal form of the states of the run:
  \<open>wrote b t\<close>, with \<open>b\<close> the bytes written so far.\<close>

lemma sc4 [simp]: "infile scanned4 = doc4" "outroom scanned4 = None" "pagescmt scanned4 = 15"
  "headerpos scanned4 = 40" "endsetup scanned4 = 40" "pageptr scanned4 = [40, 70, 100, 130, 160]"
  "pages scanned4 = 4" "width scanned4 = 595" "height scanned4 = 842" "beginprocset scanned4 = 0"
  "endprocset scanned4 = 0" "outputpage scanned4 = 0" "outfile scanned4 = []" "inpos scanned4 = 160"
  "bytes scanned4 = 0"
  by (simp_all add: scanned4_def start_def)

lemma wrote_upds:
  "(wrote b s)\<lparr>inpos := p\<rparr> = wrote b (s\<lparr>inpos := p\<rparr>)"
  "(wrote b s)\<lparr>pagelabel := l\<rparr> = wrote b (s\<lparr>pagelabel := l\<rparr>)"
  "(wrote b s)\<lparr>pageno := n\<rparr> = wrote b (s\<lparr>pageno := n\<rparr>)"
  "(wrote b s)\<lparr>outputpage := k\<rparr> = wrote b (s\<lparr>outputpage := k\<rparr>)"
  by (simp_all add: wrote_def)

lemma wrote_more [simp]:
  "width (wrote b s) = width s" "height (wrote b s) = height s"
  "pagelabel (wrote b s) = pagelabel s" "pageno (wrote b s) = pageno s"
  by (simp_all add: wrote_def)

lemma wrote_wrote: "wrote b (wrote a s) = wrote (a @ b) s"
  by (simp add: wrote_append)

lemma fcopy_Nil_wrote:
  "outroom s = None \<Longrightarrow> up_to \<le> length (infile s) \<Longrightarrow>
   fcopy up_to (Some []) s =
     (True, wrote (slice (infile s) (inpos s) up_to) (s\<lparr>inpos := max (inpos s) up_to\<rparr>))"
  using fcopy_null_ok [of s up_to] by (simp add: fcopy_None_Some)

lemma len4 [simp]: "length doc4 = 176"
  by (simp add: doc4_def)

lemma lines4:
  "getline 8191 (drop 15 doc4) = ''%%Pages: 4\<newline>''"
  "getline 8191 (drop 40 doc4) = ''%%Page: 1 1\<newline>''"
  "getline 8191 (drop 70 doc4) = ''%%Page: 2 2\<newline>''"
  "getline 8191 (drop 100 doc4) = ''%%Page: 3 3\<newline>''"
  "getline 8191 (drop 130 doc4) = ''%%Page: 4 4\<newline>''"
  "getline 8191 (drop 160 doc4) = ''%%Trailer\<newline>''"
  "getline 8191 (drop 170 doc4) = ''%%EOF\<newline>''"
  by (simp_all add: doc4_def)

lemma slices4:
  "slice doc4 0 15 = ''%!PS-Adobe-3.0\<newline>''"
  "slice doc4 26 40 = ''%%EndComments\<newline>''"
  "slice doc4 40 40 = []"
  "slice doc4 52 70 = ''(a) show showpage\<newline>''"
  "slice doc4 82 100 = ''(b) show showpage\<newline>''"
  "slice doc4 112 130 = ''(c) show showpage\<newline>''"
  "slice doc4 142 160 = ''(d) show showpage\<newline>''"
  by (simp_all add: doc4_def slice_def)

lemmas run_rules = writestring_wrote writestringf_def wrote_upds wrote_wrote fcopy_null_ok
  fcopy_Nil_wrote fgets_def fseeko_def BUFSIZ_def Let_def lines4 slices4 showints fmts flags2

lemma hdr4:
  "\<exists>b. writeheadermedia 2 (Some []) 595 842 scanned4 =
     Inr (wrote (''%!PS-Adobe-3.0\<newline>'' @ media_lines 595 842 @ ''%%Pages: 2 0\<newline>'' @ b)
            (scanned4\<lparr>inpos := 40\<rparr>))"
  apply (rule exI)
  apply (simp add: writeheadermedia_def media_lines_def trunc_int_def run_rules)
  done

text \<open>The steps of \<open>pstops\<close> on \<open>doc4\<close>.\<close>

lemma procset4:
  "emit_partprolog (emit_procset False (wrote a (scanned4\<lparr>inpos := 40\<rparr>))) =
     Inr (wrote (a @ ''%%BeginProcSet: PStoPS 1 15\<newline>'' @ prologue @ ''%%EndProcSet\<newline>'' @ xform_line)
            (scanned4\<lparr>inpos := 40\<rparr>))"
  by (simp add: emit_procset_def emit_partprolog_def writepartprolog_def writeprolog_def run_rules)

lemma setup4:
  "writesetup (wrote a (scanned4\<lparr>inpos := 40\<rparr>)) = Inr (wrote a (scanned4\<lparr>inpos := 40\<rparr>))"
  by (simp add: writesetup_def run_rules)

lemmas page_rules = label_page_def mklabel_def seekpage_def cstr_def iscomment_def
  isspace_def atoi_def isdigit_def writepageheader_def gsave_block_def emit_body_def
  writepagesetup_def writepagebody_def

lemma sheet0:
  "\<exists>b. specs_loop False FM fmt0 0 4 2 0
          [\<lparr>ps_pageno = 0, ps_flags = 51, ps_rotate = 90, ps_xoff = 595, ps_yoff = 457 / 1684,
             ps_scale = 595 / 842\<rparr>,
           \<lparr>ps_pageno = 1, ps_flags = 50, ps_rotate = 90, ps_xoff = 595, ps_yoff = 709421 / 1684,
             ps_scale = 595 / 842\<rparr>]
          (wrote a (scanned4\<lparr>inpos := 40\<rparr>)) =
     Inr (wrote (a @ ''%%Page: (0,1) 1\<newline>'' @ b)
            (scanned4\<lparr>inpos := 100, pagelabel := ''2'', pageno := 2, outputpage := 1\<rparr>))"
  apply (rule exI)
  apply (simp add: page_rules run_rules scanned4_def start_def)
  done

lemma sheet1:
  "\<exists>b. specs_loop False FM fmt0 0 4 2 2
          [\<lparr>ps_pageno = 0, ps_flags = 51, ps_rotate = 90, ps_xoff = 595, ps_yoff = 457 / 1684,
             ps_scale = 595 / 842\<rparr>,
           \<lparr>ps_pageno = 1, ps_flags = 50, ps_rotate = 90, ps_xoff = 595, ps_yoff = 709421 / 1684,
             ps_scale = 595 / 842\<rparr>]
          (wrote a (scanned4\<lparr>inpos := 100, pagelabel := ''2'', pageno := 2, outputpage := 1\<rparr>)) =
     Inr (wrote (a @ ''%%Page: (2,3) 2\<newline>'' @ b)
            (scanned4\<lparr>inpos := 160, pagelabel := ''4'', pageno := 4, outputpage := 2\<rparr>))"
  apply (rule exI)
  apply (simp add: page_rules run_rules scanned4_def start_def)
  done

lemma trailer4:
  "writetrailer (wrote a (scanned4\<lparr>inpos := 160, pagelabel := ''4'', pageno := 4, outputpage := 2\<rparr>)) =
     Inr (wrote (a @ ''%%Trailer\<newline>%%EOF\<newline>'')
            (scanned4\<lparr>inpos := 176, pagelabel := ''4'', pageno := 4, outputpage := 2\<rparr>))"
  by (simp add: writetrailer_def trailerloop.simps cstr_def run_rules scanned4_def start_def)

lemma run4:
  "\<exists>a b c. pstops FM fmt0 2 1 False
       (mkspecs FM (layout_of (defaults 2) 595 842 (find_layout (defaults 2) 595 842)))
       0 (Some []) scanned4 =
     Inr (wrote (''%!PS-Adobe-3.0\<newline>'' @ media_lines 595 842 @ ''%%Pages: 2 0\<newline>'' @ a @
                 ''%%Page: (0,1) 1\<newline>'' @ b @ ''%%Page: (2,3) 2\<newline>'' @ c)
            (scanned4\<lparr>inpos := 176, pagelabel := ''4'', pageno := 4, outputpage := 2\<rparr>))"
proof -
  let ?specs = "[\<lparr>ps_pageno = 0, ps_flags = 51, ps_rotate = 90, ps_xoff = 595, ps_yoff = 457 / 1684,
             ps_scale = 595 / 842\<rparr>,
           \<lparr>ps_pageno = 1, ps_flags = 50, ps_rotate = 90, ps_xoff = 595, ps_yoff = 709421 / 1684,
             ps_scale = 595 / 842\<rparr>]"
  let ?P = "''%%BeginProcSet: PStoPS 1 15\<newline>'' @ prologue @ ''%%EndProcSet\<newline>'' @ xform_line"
  let ?t1 = "scanned4\<lparr>inpos := 100, pagelabel := ''2'', pageno := 2, outputpage := 1\<rparr>"
  let ?t2 = "scanned4\<lparr>inpos := 160, pagelabel := ''4'', pageno := 4, outputpage := 2\<rparr>"
  obtain b1 where h: "writeheadermedia 2 (Some []) 595 842 scanned4 =
      Inr (wrote (''%!PS-Adobe-3.0\<newline>'' @ media_lines 595 842 @ ''%%Pages: 2 0\<newline>'' @ b1)
             (scanned4\<lparr>inpos := 40\<rparr>))"
    using hdr4 by blast
  let ?H = "''%!PS-Adobe-3.0\<newline>'' @ media_lines 595 842 @ ''%%Pages: 2 0\<newline>'' @ b1"
  let ?a1 = "?H @ ?P"
  obtain b2 where s0: "specs_loop False FM fmt0 0 4 2 0 ?specs (wrote ?a1 (scanned4\<lparr>inpos := 40\<rparr>)) =
      Inr (wrote (?a1 @ ''%%Page: (0,1) 1\<newline>'' @ b2) ?t1)"
    using sheet0 [of ?a1] by blast
  let ?a2 = "?a1 @ ''%%Page: (0,1) 1\<newline>'' @ b2"
  obtain b3 where s1: "specs_loop False FM fmt0 0 4 2 2 ?specs (wrote ?a2 ?t1) =
      Inr (wrote (?a2 @ ''%%Page: (2,3) 2\<newline>'' @ b3) ?t2)"
    using sheet1 [of ?a2] by blast
  let ?a3 = "?a2 @ ''%%Page: (2,3) 2\<newline>'' @ b3"
  have pl: "pages_loop FM fmt0 0 4 2 ?specs 0 (wrote ?a1 (scanned4\<lparr>inpos := 40\<rparr>)) =
      Inr (wrote ?a3 ?t2)"
  proof -
    have ar: "(0::int) < 4" "(2::int) < 4" "\<not> (4::int) < 4" "\<not> (2::int) \<le> 0"
      "(0::int) + 2 = 2" "(2::int) + 2 = 4"
      by simp_all
    show ?thesis
      by (simp only: pages_loop.simps [of _ _ _ _ _ _ 0] pages_loop.simps [of _ _ _ _ _ _ 2]
          pages_loop.simps [of _ _ _ _ _ _ 4] s0 s1 ar sum.case if_True if_False)
  qed
  have m: "maxpage_of 4 2 = 4"
    by (simp add: maxpage_of_def signed_divide_int_def)
  have "pstops FM fmt0 2 1 False ?specs 0 (Some []) scanned4 =
      Inr (wrote (?a3 @ ''%%Trailer\<newline>%%EOF\<newline>'')
             (scanned4\<lparr>inpos := 176, pagelabel := ''4'', pageno := 4, outputpage := 2\<rparr>))"
    by (simp add: pstops_def m signed_divide_int_def h procset4 [of ?H, simplified]
        setup4 [of ?a1, simplified] pl [simplified] trailer4 [of ?a3, simplified])
  then show ?thesis
    unfolding specs2 by (intro exI [of _ "b1 @ ?P"] exI [of _ b2]
        exI [of _ "b3 @ ''%%Trailer\<newline>%%EOF\<newline>''"]) simp
qed



lemma scan_doc4: "scanpages 20 (Some []) (start doc4 595 842) = Inr (Some [], scanned4)"
  by (simp add: scan_eval doc4_def scanned4_def)

lemma opts2:
  "o_nup (defaults 2) = 2" "o_draw (defaults 2) = 0" "o_margin (defaults 2) = 0"
  "o_border (defaults 2) = 0" "o_tolerance (defaults 2) = 100000" "o_flip (defaults 2) = False"
  "o_iwidth (defaults 2) = - 1" "o_iheight (defaults 2) = - 1"
  by (simp_all add: defaults_def)

text \<open>\<open>psnup -2\<close> on the four pages of \<open>doc4\<close>, A4 paper.\<close>

lemma psnup_doc4:
  "psnup FM fmt0 (defaults 2) (start doc4 595 842) =
     pstops FM fmt0 2 1 False
       (mkspecs FM (layout_of (defaults 2) 595 842 (find_layout (defaults 2) 595 842)))
       0 (Some []) scanned4"
proof -
  have w: "width (start doc4 595 842) = 595" "height (start doc4 595 842) = 842"
    by (simp_all add: start_def)
  have f: "layout_loop 595 842 595 842 0 False 2 1
       \<lparr>b_best = 100000, b_scale = 1, b_hshift = 0, b_vshift = 0, b_horiz = 0, b_vert = 0,
        b_rotate = False\<rparr> = find_layout (defaults 2) 595 842"
    by (simp add: find_layout_def opts2)
  have b: "b_best (find_layout (defaults 2) 595 842) \<noteq> 100000"
    by (simp add: layout2)
  show ?thesis
    by (simp add: psnup_def w opts2 scan_doc4 f b)
qed

text \<open>
  Claim C3, as amended. With \<open>nup = 2\<close> on A4 paper (595 by 842 points, no margin, no
  border, the default flags and tolerance) the search accepts the trial \<open>hor = 2\<close>,
  \<open>ver = 1\<close> in the rotated orientation, for which the code stores \<open>horiz = ver\<close> and
  \<open>vert = hor\<close>: the layout is \<open>horiz = 1\<close>, \<open>vert = 2\<close>, \<open>rotate\<close> set, with the
  scale \<open>595 / 842\<close>. Both specs carry \<open>rotate = 90\<close> and the flag \<open>ROTATE\<close>. With four
  pages the labels of the two sheets are \<open>(0,1)\<close> and \<open>(2,3)\<close>, and the run of psnup on
  the four-page document \<open>doc4\<close> writes two page comments, with these labels in this
  order.
\<close>

theorem psnup2_a4_layout_labels:
  "b_horiz (find_layout (defaults 2) 595 842) = 1 \<and>
   b_vert (find_layout (defaults 2) 595 842) = 2 \<and>
   b_rotate (find_layout (defaults 2) 595 842) \<and>
   b_scale (find_layout (defaults 2) 595 842) = 595 / 842 \<and>
   find_layout (defaults 2) 595 842 =
     try_hor 595 842 595 842 0 False 2 2
       (try_hor 595 842 595 842 0 False 2 1
          \<lparr>b_best = 100000, b_scale = 1, b_hshift = 0, b_vshift = 0, b_horiz = 0, b_vert = 0,
           b_rotate = False\<rparr>) \<and>
   map ps_rotate (mkspecs FM (layout_of (defaults 2) 595 842 (find_layout (defaults 2) 595 842))) =
     [90, 90] \<and>
   map (\<lambda>ps. ps_flags ps AND ROTATE FM \<noteq> 0)
     (mkspecs FM (layout_of (defaults 2) 595 842 (find_layout (defaults 2) 595 842))) =
     [True, True] \<and>
   mklabel FM (maxpage_of 4 2) 0 2
     (mkspecs FM (layout_of (defaults 2) 595 842 (find_layout (defaults 2) 595 842))) = ''(0,1)'' \<and>
   mklabel FM (maxpage_of 4 2) 2 2
     (mkspecs FM (layout_of (defaults 2) 595 842 (find_layout (defaults 2) 595 842))) = ''(2,3)'' \<and>
   (\<exists>a b c s'. psnup FM fmt0 (defaults 2) (start doc4 595 842) = Inr s' \<and>
      outputpage s' = 2 \<and>
      outfile s' = a @ ''%%Page: (0,1) 1\<newline>'' @ b @ ''%%Page: (2,3) 2\<newline>'' @ c)"
proof -
  have t: "find_layout (defaults 2) 595 842 =
     try_hor 595 842 595 842 0 False 2 2
       (try_hor 595 842 595 842 0 False 2 1
          \<lparr>b_best = 100000, b_scale = 1, b_hshift = 0, b_vshift = 0, b_horiz = 0, b_vert = 0,
           b_rotate = False\<rparr>)"
    by (simp add: find_layout_def opts2 layout_loop.simps [of _ _ _ _ _ _ _ 1]
        layout_loop.simps [of _ _ _ _ _ _ _ 2] layout_loop.simps [of _ _ _ _ _ _ _ 0]
        nextdiv.simps [of 1] nextdiv.simps [of 2] signed_modulo_int_def)
  have l: "mklabel FM (maxpage_of 4 2) 0 2
       (mkspecs FM (layout_of (defaults 2) 595 842 (find_layout (defaults 2) 595 842))) = ''(0,1)''"
    "mklabel FM (maxpage_of 4 2) 2 2
       (mkspecs FM (layout_of (defaults 2) 595 842 (find_layout (defaults 2) 595 842))) = ''(2,3)''"
    by (simp_all add: specs2 mklabel_def label_page_def flags2 showints)
  obtain a b c where r: "pstops FM fmt0 2 1 False
       (mkspecs FM (layout_of (defaults 2) 595 842 (find_layout (defaults 2) 595 842)))
       0 (Some []) scanned4 =
     Inr (wrote (''%!PS-Adobe-3.0\<newline>'' @ media_lines 595 842 @ ''%%Pages: 2 0\<newline>'' @ a @
                 ''%%Page: (0,1) 1\<newline>'' @ b @ ''%%Page: (2,3) 2\<newline>'' @ c)
            (scanned4\<lparr>inpos := 176, pagelabel := ''4'', pageno := 4, outputpage := 2\<rparr>))"
    using run4 by blast
  define s' where "s' = wrote (''%!PS-Adobe-3.0\<newline>'' @ media_lines 595 842 @ ''%%Pages: 2 0\<newline>'' @ a @
                 ''%%Page: (0,1) 1\<newline>'' @ b @ ''%%Page: (2,3) 2\<newline>'' @ c)
            (scanned4\<lparr>inpos := 176, pagelabel := ''4'', pageno := 4, outputpage := 2\<rparr>)"
  have p: "psnup FM fmt0 (defaults 2) (start doc4 595 842) = Inr s'"
    unfolding psnup_doc4 r s'_def ..
  have o: "outputpage s' = 2"
    by (simp add: s'_def)
  have "outfile s' = (''%!PS-Adobe-3.0\<newline>'' @ media_lines 595 842 @ ''%%Pages: 2 0\<newline>'' @ a) @
      ''%%Page: (0,1) 1\<newline>'' @ b @ ''%%Page: (2,3) 2\<newline>'' @ c"
    by (simp add: s'_def)
  with p o have ex: "\<exists>a b c s'. psnup FM fmt0 (defaults 2) (start doc4 595 842) = Inr s' \<and>
      outputpage s' = 2 \<and>
      outfile s' = a @ ''%%Page: (0,1) 1\<newline>'' @ b @ ''%%Page: (2,3) 2\<newline>'' @ c"
    by blast
  have v: "b_horiz (find_layout (defaults 2) 595 842) = 1"
    "b_vert (find_layout (defaults 2) 595 842) = 2" "b_rotate (find_layout (defaults 2) 595 842)"
    "b_scale (find_layout (defaults 2) 595 842) = 595 / 842"
    by (simp_all add: layout2)
  have q: "map ps_rotate
       (mkspecs FM (layout_of (defaults 2) 595 842 (find_layout (defaults 2) 595 842))) = [90, 90]"
    "map (\<lambda>ps. ps_flags ps AND ROTATE FM \<noteq> 0)
       (mkspecs FM (layout_of (defaults 2) 595 842 (find_layout (defaults 2) 595 842))) =
     [True, True]"
    by (simp_all add: specs2 flags2)
  show ?thesis
    by (intro conjI v t q l ex)
qed

text \<open>The claim as stated names the stored grid \<open>horiz = 2\<close>, \<open>vert = 1\<close>; the code stores
  the trial the other way round.\<close>

theorem psnup2_a4_layout_counterexample:
  "\<not> (b_horiz (find_layout (defaults 2) 595 842) = 2 \<and>
      b_vert (find_layout (defaults 2) 595 842) = 1)"
  by (simp add: layout2)

end
